theory Spec2Isabelle
  imports Main "HOL-Library.Sublist" "HOL-Library.Monad_Syntax"
begin

section \<open>Values and strings\<close>

text \<open>
  The values that the containers of \<^verbatim>\<open>utils.ts\<close> hold are arbitrary JavaScript
  values. The model keeps the ones the code distinguishes: \<^verbatim>\<open>undefined\<close>, strings,
  integral numbers, references to objects (compared by identity) and DOM nodes (compared
  by identity). Numbers are exact integers, as JavaScript numbers are up to \<open>2^53\<close>.
\<close>

datatype val = Undefined | Str string | Num int | Ref nat | Node nat

text \<open>JavaScript truthiness, as used by \<^verbatim>\<open>!state.get()\<close> in \<^verbatim>\<open>Dynel.fetch\<close>.\<close>

fun truthy :: "val \<Rightarrow> bool" where
  "truthy Undefined = False"
| "truthy (Str s) = (s \<noteq> [])"
| "truthy (Num n) = (n \<noteq> 0)"
| "truthy (Ref r) = True"
| "truthy (Node r) = True"

text \<open>\<^verbatim>\<open>Number.prototype.toString\<close> on a non-negative integer: its decimal digits.\<close>

definition digit_char :: "nat \<Rightarrow> char" where
  "digit_char d = char_of (48 + d)"

fun toString :: "nat \<Rightarrow> string" where
  "toString n = (if n < 10 then [digit_char n] else toString (n div 10) @ [digit_char (n mod 10)])"

declare toString.simps [simp del]

section \<open>utils.ts: callbacks\<close>

text \<open>
  A \<^verbatim>\<open>Listener<T>\<close> is a closure supplied by client code. The model gives every
  callback an identity and a body. Calling a callback appends the caller, the identity of
  the callback and the payload it received to the trace of the world, then runs the
  body. The body is a list of statements, each a call back into \<^verbatim>\<open>utils.ts\<close> that a
  client closure can make, or a \<^verbatim>\<open>throw\<close>:
  \<^item> \<open>ObjSet g a v\<close>: \<^verbatim>\<open>container.set(v)\<close> on the container at reference \<open>a\<close>,
  \<^item> \<open>NamedSet g nm v\<close>: \<^verbatim>\<open>State.set(nm, v)\<close>,
  \<^item> \<open>ObjSubscribe a c\<close>: \<^verbatim>\<open>container.subscribe(c)\<close>,
  \<^item> \<open>Trigger nm v\<close>: \<^verbatim>\<open>Event.trigger(nm, v)\<close>,
  \<^item> \<open>Throw\<close>: \<^verbatim>\<open>throw new Error()\<close>.
  The guard \<open>g\<close> of a write is \<open>None\<close> for an unconditional call and \<open>Some x\<close> for
  \<^verbatim>\<open>if (payload === x) ...\<close>.
\<close>

datatype cb = Cb (cid: nat) (body: "act list")
and act =
    ObjSet "val option" nat val
  | NamedSet "val option" string val
  | ObjSubscribe nat cb
  | Trigger string val
  | Throw

definition guard_ok :: "val option \<Rightarrow> val \<Rightarrow> bool" where
  "guard_ok g p = (case g of None \<Rightarrow> True | Some x \<Rightarrow> p = x)"

text \<open>
  A call ends in one of three ways. It returns; or it throws, and the exception
  propagates to its caller with the effects made so far in place; or it never returns.
  The result of a call is \<open>Some (Inr s)\<close> when it returns in state \<open>s\<close>,
  \<open>Some (Inl (e, s))\<close> when it throws \<open>e\<close> in state \<open>s\<close>, and \<open>None\<close> when the nesting of
  callback invocations exceeds the bound given as first argument, as it does for every
  bound when the call never returns.
\<close>

datatype error = ClientError | InvalidCharacterError

type_synonym ('s, 'a) result = "(error \<times> 's) + 'a"

definition final :: "('s, 's) result \<Rightarrow> 's" where
  "final r = (case r of Inl (e, s) \<Rightarrow> s | Inr s \<Rightarrow> s)"

section \<open>utils.ts: State and Event\<close>

text \<open>
  \<^verbatim>\<open>class State<T>\<close>: the fields \<^verbatim>\<open>name\<close>, \<^verbatim>\<open>value\<close> and \<^verbatim>\<open>setCallbacks\<close>.
  \<^verbatim>\<open>class Event\<close>: the fields \<^verbatim>\<open>name\<close> and \<^verbatim>\<open>listeners\<close>.
\<close>

record State_obj =
  st_name :: string
  st_value :: val
  setCallbacks :: "cb list"

record Event_obj =
  ev_name :: string
  listeners :: "cb list"

text \<open>
  Objects are mutable and shared, so they live in a store indexed by reference;
  \<open>next_ref\<close> is the next unused reference. \<open>State_instanceMap\<close> and
  \<open>Event_instanceMap\<close> are the two static registries. \<open>trace\<close> records every callback
  invocation, oldest first: who called (the \<^verbatim>\<open>set\<close> of the container at a reference, the
  \<^verbatim>\<open>trigger\<close> of the event at a reference, or \<^verbatim>\<open>Dynel.fetch\<close> for a kind), the identity
  of the callback, and the payload.
\<close>

datatype caller = BySet nat | ByTrigger nat | ByFetch string

record world =
  states :: "nat \<Rightarrow> State_obj"
  State_instanceMap :: "string \<Rightarrow> nat option"
  events :: "nat \<Rightarrow> Event_obj"
  Event_instanceMap :: "string \<Rightarrow> nat option"
  next_ref :: nat
  trace :: "(caller \<times> nat \<times> val) list"

text \<open>\<^verbatim>\<open>private static registerInstance(name, instance) { State.instanceMap.set(name, instance); }\<close>\<close>

definition State_registerInstance :: "string \<Rightarrow> nat \<Rightarrow> world \<Rightarrow> world" where
  "State_registerInstance nm a w = w\<lparr>State_instanceMap := (State_instanceMap w)(nm \<mapsto> a)\<rparr>"

text \<open>
  The constructor \<^verbatim>\<open>constructor(initialValue?: T, name?: string)\<close>. The argument \<open>now\<close>
  is the value of \<^verbatim>\<open>Date.now()\<close>, read when no name is given. The result is the
  reference of the new object and the world after the constructor has run.
\<close>

definition State_new :: "val \<Rightarrow> string option \<Rightarrow> nat \<Rightarrow> world \<Rightarrow> nat \<times> world" where
  "State_new initialValue nm now w =
     (let a = next_ref w;
          this_name = (case nm of None \<Rightarrow> toString now | Some s \<Rightarrow> s);
          w1 = w\<lparr>states := (states w)
                    (a := \<lparr>st_name = this_name, st_value = initialValue, setCallbacks = []\<rparr>),
                 next_ref := Suc a\<rparr>
      in (a, State_registerInstance this_name a w1))"

text \<open>\<^verbatim>\<open>public subscribe(cb) { this.setCallbacks.push(cb); }\<close>\<close>

definition State_subscribe :: "nat \<Rightarrow> cb \<Rightarrow> world \<Rightarrow> world" where
  "State_subscribe a c w =
     w\<lparr>states := (states w)(a := (states w a)\<lparr>setCallbacks := setCallbacks (states w a) @ [c]\<rparr>)\<rparr>"


text \<open>
  The receiver of \<^verbatim>\<open>.get(name)!.set(newValue)\<close> in the static \<^verbatim>\<open>State.set\<close>:
  \<^verbatim>\<open>State.instanceMap.has(name) ? State.instanceMap
     : State.instanceMap.set(name, new State(undefined, name))\<close>.
  The constructor is called with a name, so the clock is not read.
\<close>

definition State_has_or_create :: "string \<Rightarrow> world \<Rightarrow> world" where
  "State_has_or_create nm w =
     (if State_instanceMap w nm \<noteq> None then w
      else (let (a, w1) = State_new Undefined (Some nm) 0 w
            in w1\<lparr>State_instanceMap := (State_instanceMap w1)(nm \<mapsto> a)\<rparr>))"

text \<open>
  The instance methods \<^verbatim>\<open>set\<close> and \<^verbatim>\<open>trigger\<close>, the \<^verbatim>\<open>forEach\<close> loops in them, the call of
  one callback, the run of a callback body and the static \<^verbatim>\<open>State.set\<close> and
  \<^verbatim>\<open>Event.trigger\<close> call one another. The first argument bounds the nesting depth of
  callback invocations.

  \<^verbatim>\<open>this.value = newValue; this.setCallbacks.forEach((cb) => cb(this.value));\<close>
  \<^verbatim>\<open>this.listeners.forEach((listener) => listener(payload));\<close>
  \<^verbatim>\<open>forEach\<close> fixes the range of indices before the first call and the array only ever
  grows, so it visits the callbacks present at the call. Each subscriber receives
  \<^verbatim>\<open>this.value\<close> as it is when that subscriber is called. An exception thrown by a
  callback is caught nowhere in \<^verbatim>\<open>utils.ts\<close>: it ends the loop and every enclosing call.
\<close>

function (sequential)
  State_set :: "nat \<Rightarrow> nat \<Rightarrow> val \<Rightarrow> world \<Rightarrow> (world, world) result option"
and forEach_setCallbacks :: "nat \<Rightarrow> nat \<Rightarrow> cb list \<Rightarrow> world \<Rightarrow> (world, world) result option"
and invoke :: "nat \<Rightarrow> caller \<Rightarrow> cb \<Rightarrow> val \<Rightarrow> world \<Rightarrow> (world, world) result option"
and run_body :: "nat \<Rightarrow> act list \<Rightarrow> val \<Rightarrow> world \<Rightarrow> (world, world) result option"
and State_set_static :: "nat \<Rightarrow> string \<Rightarrow> val \<Rightarrow> world \<Rightarrow> (world, world) result option"
and Event_trigger :: "nat \<Rightarrow> nat \<Rightarrow> val \<Rightarrow> world \<Rightarrow> (world, world) result option"
and forEach_listeners :: "nat \<Rightarrow> nat \<Rightarrow> cb list \<Rightarrow> val \<Rightarrow> world \<Rightarrow> (world, world) result option"
and Event_trigger_static :: "nat \<Rightarrow> string \<Rightarrow> val \<Rightarrow> world \<Rightarrow> (world, world) result option"
where
  "State_set n a v w =
     forEach_setCallbacks n a (setCallbacks (states w a))
       (w\<lparr>states := (states w)(a := (states w a)\<lparr>st_value := v\<rparr>)\<rparr>)"
| "forEach_setCallbacks n a [] w = Some (Inr w)"
| "forEach_setCallbacks n a (c # cs) w =
     (case invoke n (BySet a) c (st_value (states w a)) w of
        None \<Rightarrow> None
      | Some (Inl x) \<Rightarrow> Some (Inl x)
      | Some (Inr w') \<Rightarrow> forEach_setCallbacks n a cs w')"
| "invoke 0 who c p w = None"
| "invoke (Suc n) who c p w = run_body n (body c) p (w\<lparr>trace := trace w @ [(who, cid c, p)]\<rparr>)"
| "run_body n [] p w = Some (Inr w)"
| "run_body n (ObjSet g a v # xs) p w =
     (case (if guard_ok g p then State_set n a v w else Some (Inr w)) of
        None \<Rightarrow> None
      | Some (Inl x) \<Rightarrow> Some (Inl x)
      | Some (Inr w') \<Rightarrow> run_body n xs p w')"
| "run_body n (NamedSet g nm v # xs) p w =
     (case (if guard_ok g p then State_set_static n nm v w else Some (Inr w)) of
        None \<Rightarrow> None
      | Some (Inl x) \<Rightarrow> Some (Inl x)
      | Some (Inr w') \<Rightarrow> run_body n xs p w')"
| "run_body n (ObjSubscribe a c # xs) p w = run_body n xs p (State_subscribe a c w)"
| "run_body n (Trigger nm v # xs) p w =
     (case Event_trigger_static n nm v w of
        None \<Rightarrow> None
      | Some (Inl x) \<Rightarrow> Some (Inl x)
      | Some (Inr w') \<Rightarrow> run_body n xs p w')"
| "run_body n (Throw # xs) p w = Some (Inl (ClientError, w))"
| "State_set_static n nm v w =
     (let w1 = State_has_or_create nm w
      in case State_instanceMap w1 nm of
           None \<Rightarrow> None
         | Some a \<Rightarrow> State_set n a v w1)"
| "Event_trigger n e payload w = forEach_listeners n e (listeners (events w e)) payload w"
| "forEach_listeners n e [] payload w = Some (Inr w)"
| "forEach_listeners n e (l # ls) payload w =
     (case invoke n (ByTrigger e) l payload w of
        None \<Rightarrow> None
      | Some (Inl x) \<Rightarrow> Some (Inl x)
      | Some (Inr w') \<Rightarrow> forEach_listeners n e ls payload w')"
| "Event_trigger_static n nm payload w =
     (case Event_instanceMap w nm of
        None \<Rightarrow> Some (Inr w)
      | Some e \<Rightarrow> Event_trigger n e payload w)"
  by pat_completeness auto
termination
  by (relation "inv_image (less_than <*lex*> less_than <*lex*> less_than)
        (\<lambda>x. case x of
            Inl (Inl (Inl (n, a, v, w))) \<Rightarrow> (n, 2::nat, 0::nat)
          | Inl (Inl (Inr (n, a, cs, w))) \<Rightarrow> (n, 1, length cs)
          | Inl (Inr (Inl (n, who, c, p, w))) \<Rightarrow> (n, 0, 0)
          | Inl (Inr (Inr (n, xs, p, w))) \<Rightarrow> (n, 4, length xs)
          | Inr (Inl (Inl (n, nm, v, w))) \<Rightarrow> (n, 3, 0)
          | Inr (Inl (Inr (n, e, p, w))) \<Rightarrow> (n, 2, 0)
          | Inr (Inr (Inl (n, e, ls, p, w))) \<Rightarrow> (n, 1, length ls)
          | Inr (Inr (Inr (n, nm, p, w))) \<Rightarrow> (n, 3, 0))") auto


text \<open>
  The first overload of the static \<^verbatim>\<open>State.subscribe\<close>:
  \<^verbatim>\<open>State.instanceMap.get(part1)?.subscribe(cb)\<close>.
\<close>

definition State_subscribe_static :: "string \<Rightarrow> cb \<Rightarrow> world \<Rightarrow> world" where
  "State_subscribe_static nm c w =
     (case State_instanceMap w nm of None \<Rightarrow> w | Some a \<Rightarrow> State_subscribe a c w)"





section \<open>dynel.ts: instance identity and key derivation\<close>

text \<open>
  \<^verbatim>\<open>this.uid = (Date.now() * 100 + Math.trunc(Math.random() * 10000)).toString()\<close>.
  The first argument is the value of \<^verbatim>\<open>Date.now()\<close> (milliseconds), the second the
  value of \<^verbatim>\<open>Math.trunc(Math.random() * 10000)\<close>, a number from 0 to 9999. The sum is
  computed exactly, as JavaScript does while it stays below \<open>2^53\<close>.
\<close>

definition Dynel_uid :: "nat \<Rightarrow> nat \<Rightarrow> string" where
  "Dynel_uid now rnd = toString (now * 100 + rnd)"

text \<open>\<^verbatim>\<open>private static key(uid, name) { return name + "." + uid; }\<close>\<close>

definition Dynel_key :: "string \<Rightarrow> string \<Rightarrow> string" where
  "Dynel_key uid name = name @ ''.'' @ uid"

section \<open>Callbacks whose calls go down in a ranking of the names\<close>

text \<open>
  A notification comes back to the container that started it only when some callback
  invoked on the way writes that container again; the same holds for events. The
  following predicates describe worlds in which this cannot happen and no callback
  throws. Every container name and every event name has a rank, a natural number, and
  the rank of a container is the rank of its name. A callback fits the rank \<open>k\<close> when
  every container it writes and every event it triggers has a rank below \<open>k\<close>, when it
  refers by reference only to containers that exist in the world \<open>w0\<close>, when the
  callbacks it subscribes to a container fit the rank of that container, and when it
  does not throw.
\<close>

datatype name = Of_State string | Of_Event string





text \<open>
  What every run of callbacks keeps, however it ends: the trace is only extended, the
  containers that exist keep their names, a registered name keeps its container, and
  events are not touched.
\<close>

definition grows :: "world \<Rightarrow> world \<Rightarrow> bool" where
  "grows w w' =
     ((\<exists>t. trace w' = trace w @ t) \<and> State_instanceMap w \<subseteq>\<^sub>m State_instanceMap w' \<and>
      next_ref w \<le> next_ref w' \<and>
      (\<forall>b<next_ref w. st_name (states w' b) = st_name (states w b)) \<and>
      events w' = events w \<and> Event_instanceMap w' = Event_instanceMap w)"

text \<open>The entries that a run from \<open>w\<close> to \<open>w'\<close> has added to the trace.\<close>

definition added :: "world \<Rightarrow> world \<Rightarrow> (caller \<times> nat \<times> val) list" where
  "added w w' = drop (length (trace w)) (trace w')"

text \<open>The entries of a trace whose caller is the given one.\<close>

definition called_by :: "caller \<Rightarrow> (caller \<times> nat \<times> val) list \<Rightarrow> (caller \<times> nat \<times> val) list" where
  "called_by who t = filter (\<lambda>x. fst x = who) t"


section \<open>Example worlds\<close>

text \<open>
  The world when \<^verbatim>\<open>utils.ts\<close> has been loaded, and worlds built from it with the
  operations above.
  \<^item> \<open>reentrant_world\<close>: a container with a subscriber that answers the value 1 by storing
    2 in the same container, and a second subscriber that does nothing.
  \<^item> \<open>derived_world\<close>: a container \<open>x\<close> whose first subscriber stores 9 in the container
    \<open>y\<close> and whose second subscriber subscribes a third callback to \<open>x\<close>; the container
    \<open>y\<close> has one subscriber. The ranking \<open>derived_rank\<close> puts \<open>x\<close> above \<open>y\<close>.
  \<^item> \<open>registered_world\<close>: a container registered as \<open>x\<close>.
  \<^item> \<open>listening_world\<close>: the event \<open>ready:x\<close> with two listeners, the first of which
    stores 1 in the container \<open>seen\<close>.
  \<^item> \<open>throwing_world\<close>: the event \<open>ready:x\<close> with two listeners, the first of which
    throws.
\<close>

definition init_world :: world where
  "init_world =
     \<lparr>states = (\<lambda>_. \<lparr>st_name = [], st_value = Undefined, setCallbacks = []\<rparr>),
      State_instanceMap = (\<lambda>_. None),
      events = (\<lambda>_. \<lparr>ev_name = [], listeners = []\<rparr>),
      Event_instanceMap = (\<lambda>_. None),
      next_ref = 0,
      trace = []\<rparr>"




definition registered_world :: world where
  "registered_world = snd (State_new (Num 1) (Some ''x'') 0 init_world)"




section \<open>dynel.ts: properties, state and the element registry\<close>



definition Prop_subscribe :: "string \<Rightarrow> cb \<Rightarrow> world \<Rightarrow> world" where
  "Prop_subscribe = State_subscribe_static"








text \<open>
  The static state of \<^verbatim>\<open>class Dynel\<close> on top of the world of \<^verbatim>\<open>utils.ts\<close>:
  \<^verbatim>\<open>instanceMap\<close> (an element is represented by its attributes), the three configured
  strings and \<^verbatim>\<open>fetchCache\<close>. \<open>requests\<close> lists the calls of the external \<^verbatim>\<open>fetch\<close>
  made so far, each with the kind it was made for and its URL. \<open>suspended\<close> has one
  entry for each call of \<^verbatim>\<open>Dynel.fetch\<close> that reached its first \<^verbatim>\<open>await\<close>, in the order
  of the requests: the kind, the container and the callback that the suspended call
  holds, or \<open>None\<close> once the call has been resumed or its promise has been rejected.
  \<open>next_node\<close> is the next unused identity of a DOM node, and \<open>innerHTML\<close> is the markup
  of the container nodes created.
\<close>

record dynel =
  base :: world
  Dynel_instanceMap :: "string \<Rightarrow> (string \<times> string) list option"
  baseUrl :: string
  extension :: string
  propPrefix :: string
  fetchCache :: "string \<Rightarrow> nat option"
  requests :: "(string \<times> string) list"
  suspended :: "(string \<times> nat \<times> cb) option list"
  next_node :: nat
  innerHTML :: "nat \<Rightarrow> string"







definition Dynel_onProp :: "string \<Rightarrow> string \<Rightarrow> cb \<Rightarrow> dynel \<Rightarrow> dynel" where
  "Dynel_onProp uid propName c d = d\<lparr>base := Prop_subscribe (Dynel_key uid propName) c (base d)\<rparr>"










section \<open>dynel.ts: the scoping rewrite of embedded scripts\<close>

text \<open>
  Script text is a list of characters, read as code units up to 255. The classes
  \<^verbatim>\<open>\s\<close> and \<^verbatim>\<open>\w\<close> of JavaScript regular expressions on such characters: the white
  space characters are tab, line feed, vertical tab, form feed, carriage return, space and
  the no-break space; the word characters are the ASCII letters, the digits and \<^verbatim>\<open>_\<close>.
\<close>

definition is_space :: "char \<Rightarrow> bool" where
  "is_space c = (c \<in> {CHR 0x09, CHR 0x0A, CHR 0x0B, CHR 0x0C, CHR 0x0D, CHR 0x20, CHR 0xA0})"

definition is_word :: "char \<Rightarrow> bool" where
  "is_word c =
     (let n = (of_char c :: nat)
      in (48 \<le> n \<and> n \<le> 57) \<or> (65 \<le> n \<and> n \<le> 90) \<or> (97 \<le> n \<and> n \<le> 122) \<or> n = 95)"

text \<open>
  The pieces of the two patterns, each a function from the text at the current position
  to the text after the piece (and what the piece captured), or \<open>None\<close> when the piece
  does not match there. Every piece is greedy, and in these two patterns a shorter match
  of a piece never lets the rest of the pattern match, so the first match the
  backtracking matcher finds at a position is the one computed here.
\<close>

text \<open>One literal character.\<close>

definition expect :: "char \<Rightarrow> string \<Rightarrow> string option" where
  "expect c s = (case s of [] \<Rightarrow> None | x # r \<Rightarrow> if x = c then Some r else None)"

text \<open>\<^verbatim>\<open>\s*\<close>\<close>

definition skip_spaces :: "string \<Rightarrow> string" where
  "skip_spaces s = dropWhile is_space s"

text \<open>A literal word.\<close>

fun strip_prefix :: "string \<Rightarrow> string \<Rightarrow> string option" where
  "strip_prefix [] s = Some s"
| "strip_prefix (k # ks) [] = None"
| "strip_prefix (k # ks) (x # s) = (if k = x then strip_prefix ks s else None)"

text \<open>An alternation of literal words, such as \<^verbatim>\<open>(onProp|onState)\<close>: the first that matches.\<close>

fun keyword :: "string list \<Rightarrow> string \<Rightarrow> (string \<times> string) option" where
  "keyword [] s = None"
| "keyword (k # ks) s = (case strip_prefix k s of Some r \<Rightarrow> Some (k, r) | None \<Rightarrow> keyword ks s)"

text \<open>\<^verbatim>\<open>(\-\w+)*\<close>\<close>

function name_tail :: "string \<Rightarrow> string \<times> string" where
  "name_tail s =
     (case s of
        c # d # r \<Rightarrow>
          if c = CHR ''-'' \<and> is_word d then
            (let (t, r') = name_tail (dropWhile is_word r)
             in (c # d # takeWhile is_word r @ t, r'))
          else ([], s)
      | _ \<Rightarrow> ([], s))"
  by pat_completeness auto
termination
  by (relation "measure length") (simp_all add: less_Suc_eq_le length_dropWhile_le le_SucI)

declare name_tail.simps [simp del]

text \<open>\<^verbatim>\<open>(\w+)(\-\w+)*\<close>\<close>

definition match_name :: "string \<Rightarrow> (string \<times> string) option" where
  "match_name s =
     (if takeWhile is_word s = [] then None
      else (let (t, r) = name_tail (dropWhile is_word s) in Some (takeWhile is_word s @ t, r)))"

text \<open>
  \<^verbatim>\<open>/(\$(onProp|onState))\s*\(\s*"((\w+)(\-\w+)*)"/\<close> at the start of the text: groups 1 and
  3, and the text after the match.
\<close>

definition match_subscription :: "string \<Rightarrow> (string \<times> string \<times> string) option" where
  \<open>match_subscription s = do {
     r0 \<leftarrow> expect CHR ''$'' s;
     (k, r1) \<leftarrow> keyword [''onProp'', ''onState''] r0;
     r2 \<leftarrow> expect CHR ''('' (skip_spaces r1);
     r3 \<leftarrow> expect CHR 0x22 (skip_spaces r2);
     (nm, r4) \<leftarrow> match_name r3;
     r5 \<leftarrow> expect CHR 0x22 r4;
     Some (CHR ''$'' # k, nm, r5)
   }\<close>

text \<open>
  \<^verbatim>\<open>/(\$(prop|ref|state))\(\s*"((\w+)(\-\w+)*)"\s*/\<close> at the start of the text: groups 1 and
  3, and the text after the match.
\<close>

definition match_access :: "string \<Rightarrow> (string \<times> string \<times> string) option" where
  \<open>match_access s = do {
     r0 \<leftarrow> expect CHR ''$'' s;
     (k, r1) \<leftarrow> keyword [''prop'', ''ref'', ''state''] r0;
     r2 \<leftarrow> expect CHR ''('' r1;
     r3 \<leftarrow> expect CHR 0x22 (skip_spaces r2);
     (nm, r4) \<leftarrow> match_name r3;
     r5 \<leftarrow> expect CHR 0x22 r4;
     Some (CHR ''$'' # k, nm, skip_spaces r5)
   }\<close>

lemma expect_shorter: "expect c s = Some r \<Longrightarrow> length r < length s"
  by (auto simp: expect_def split: list.splits if_splits)

lemma strip_prefix_shorter: "strip_prefix k s = Some r \<Longrightarrow> length r \<le> length s"
  by (induction k s rule: strip_prefix.induct) (auto split: if_splits)

lemma keyword_shorter: "keyword ks s = Some (k, r) \<Longrightarrow> length r \<le> length s"
  by (induction ks) (auto split: option.splits dest: strip_prefix_shorter)

lemma skip_spaces_le: "length (skip_spaces s) \<le> length s"
  by (simp add: skip_spaces_def length_dropWhile_le)

lemma name_tail_le: "name_tail s = (t, r) \<Longrightarrow> length r \<le> length s"
proof (induction s arbitrary: t r rule: name_tail.induct)
  case (1 s)
  show ?case
  proof (cases s)
    case Nil
    with "1.prems" show ?thesis by (simp add: name_tail.simps)
  next
    case (Cons c s1)
    show ?thesis
    proof (cases s1)
      case Nil
      with Cons "1.prems" show ?thesis by (simp add: name_tail.simps)
    next
      case (Cons d s2)
      show ?thesis
      proof (cases "c = CHR ''-'' \<and> is_word d")
        case True
        obtain t' r' where tr: "name_tail (dropWhile is_word s2) = (t', r')"
          by (cases "name_tail (dropWhile is_word s2)")
        from "1.IH" [OF \<open>s = c # s1\<close> \<open>s1 = d # s2\<close> True tr]
        have "length r' \<le> length (dropWhile is_word s2)" .
        also have "\<dots> \<le> length s2" by (rule length_dropWhile_le)
        finally have "length r' \<le> length s2" .
        moreover from "1.prems" True tr \<open>s = c # s1\<close> \<open>s1 = d # s2\<close> have "r = r'"
          by (simp add: name_tail.simps)
        ultimately show ?thesis using \<open>s = c # s1\<close> \<open>s1 = d # s2\<close> by simp
      next
        case False
        with "1.prems" \<open>s = c # s1\<close> \<open>s1 = d # s2\<close> show ?thesis
          by (auto simp: name_tail.simps)
      qed
    qed
  qed
qed

lemma match_name_le: "match_name s = Some (nm, r) \<Longrightarrow> length r \<le> length s"
proof -
  assume a: "match_name s = Some (nm, r)"
  obtain t r' where tr: "name_tail (dropWhile is_word s) = (t, r')"
    by (cases "name_tail (dropWhile is_word s)")
  with a have "r = r'" by (auto simp: match_name_def split: if_splits)
  with name_tail_le [OF tr] length_dropWhile_le [of is_word s] show ?thesis by simp
qed

lemma match_subscription_parts:
  assumes "match_subscription s = Some (g1, g3, r)"
  obtains r0 k r1 r2 r3 r4 where "expect CHR ''$'' s = Some r0"
    and "keyword [''onProp'', ''onState''] r0 = Some (k, r1)"
    and "expect CHR ''('' (skip_spaces r1) = Some r2"
    and "expect CHR 0x22 (skip_spaces r2) = Some r3"
    and "match_name r3 = Some (g3, r4)"
    and "expect CHR 0x22 r4 = Some r" and "g1 = CHR ''$'' # k"
  using assms unfolding match_subscription_def
  by (auto simp: bind_eq_Some_conv)

lemma match_access_parts:
  assumes "match_access s = Some (g1, g3, r)"
  obtains r0 k r1 r2 r3 r4 r5 where "expect CHR ''$'' s = Some r0"
    and "keyword [''prop'', ''ref'', ''state''] r0 = Some (k, r1)"
    and "expect CHR ''('' r1 = Some r2"
    and "expect CHR 0x22 (skip_spaces r2) = Some r3"
    and "match_name r3 = Some (g3, r4)"
    and "expect CHR 0x22 r4 = Some r5" and "r = skip_spaces r5" and "g1 = CHR ''$'' # k"
  using assms unfolding match_access_def
  by (auto simp: bind_eq_Some_conv)

lemma match_subscription_shorter:
  assumes "match_subscription s = Some (g1, g3, r)"
  shows "length r < length s"
proof -
  from assms obtain r0 k r1 r2 r3 r4 where p: "expect CHR ''$'' s = Some r0"
    "keyword [''onProp'', ''onState''] r0 = Some (k, r1)"
    "expect CHR ''('' (skip_spaces r1) = Some r2"
    "expect CHR 0x22 (skip_spaces r2) = Some r3"
    "match_name r3 = Some (g3, r4)"
    "expect CHR 0x22 r4 = Some r"
    by (rule match_subscription_parts)
  from expect_shorter [OF p(1)] keyword_shorter [OF p(2)] expect_shorter [OF p(3)]
    expect_shorter [OF p(4)] match_name_le [OF p(5)] expect_shorter [OF p(6)]
    skip_spaces_le [of r1] skip_spaces_le [of r2]
  show ?thesis by linarith
qed

lemma match_access_shorter:
  assumes "match_access s = Some (g1, g3, r)"
  shows "length r < length s"
proof -
  from assms obtain r0 k r1 r2 r3 r4 r5 where p: "expect CHR ''$'' s = Some r0"
    "keyword [''prop'', ''ref'', ''state''] r0 = Some (k, r1)"
    "expect CHR ''('' r1 = Some r2"
    "expect CHR 0x22 (skip_spaces r2) = Some r3"
    "match_name r3 = Some (g3, r4)"
    "expect CHR 0x22 r4 = Some r5" "r = skip_spaces r5"
    by (rule match_access_parts)
  from expect_shorter [OF p(1)] keyword_shorter [OF p(2)] expect_shorter [OF p(3)]
    expect_shorter [OF p(4)] match_name_le [OF p(5)] expect_shorter [OF p(6)]
    skip_spaces_le [of r2] skip_spaces_le [of r5] p(7)
  show ?thesis by simp
qed

text \<open>
  \<^verbatim>\<open>text.replaceAll(/.../g, `$1("${this.uid}", "$3"`)\<close>: the matches are found from left
  to right, each search starting where the previous match ended, and every match is
  replaced by group 1, an opening parenthesis, the uid in double quotes, a comma and a
  space, and group 3 in double quotes. The uid is a decimal numeral, so the replacement
  pattern inserts it as it is.
\<close>

function replaceAll_subscriptions :: "string \<Rightarrow> string \<Rightarrow> string" where
  "replaceAll_subscriptions uid [] = []"
| "replaceAll_subscriptions uid (c # cs) =
     (case match_subscription (c # cs) of
        Some (g1, g3, r) \<Rightarrow>
          g1 @ [CHR ''('', CHR 0x22] @ uid @ [CHR 0x22, CHR '','', CHR '' '', CHR 0x22] @ g3 @ [CHR 0x22]
             @ replaceAll_subscriptions uid r
      | None \<Rightarrow> c # replaceAll_subscriptions uid cs)"
  by pat_completeness auto
termination
  by (relation "measure (\<lambda>(uid, s). length s)") (auto dest: match_subscription_shorter)

text \<open>\<^verbatim>\<open>.replaceAll(/.../g, `$1("${this.uid}","$3"`)\<close>, without the space after the comma.\<close>

function replaceAll_accesses :: "string \<Rightarrow> string \<Rightarrow> string" where
  "replaceAll_accesses uid [] = []"
| "replaceAll_accesses uid (c # cs) =
     (case match_access (c # cs) of
        Some (g1, g3, r) \<Rightarrow>
          g1 @ [CHR ''('', CHR 0x22] @ uid @ [CHR 0x22, CHR '','', CHR 0x22] @ g3 @ [CHR 0x22]
             @ replaceAll_accesses uid r
      | None \<Rightarrow> c # replaceAll_accesses uid cs)"
  by pat_completeness auto
termination
  by (relation "measure (\<lambda>(uid, s). length s)") (auto dest: match_access_shorter)

text \<open>\<^verbatim>\<open>prepareScript\<close>: the new \<^verbatim>\<open>textContent\<close> of the script element.\<close>

definition prepareScript :: "string \<Rightarrow> string \<Rightarrow> string" where
  "prepareScript uid textContent = replaceAll_accesses uid (replaceAll_subscriptions uid textContent)"

text \<open>
  The names the patterns accept, \<^verbatim>\<open>(\w+)(\-\w+)*\<close>: a non-empty run of word characters,
  then any number of parts, each a hyphen and a non-empty run of word characters.
\<close>

definition word_part :: "string \<Rightarrow> bool" where
  "word_part p = (p \<noteq> [] \<and> list_all is_word p)"

definition hyphenated :: "string \<Rightarrow> string list \<Rightarrow> string" where
  "hyphenated w ps = w @ concat (map (\<lambda>p. CHR ''-'' # p) ps)"

section \<open>dynel.ts: slot projection\<close>

text \<open>
  The document tree. An element has an identity, a tag name, attributes and child nodes;
  the other nodes are text. Identity is what \<^verbatim>\<open>replaceWith\<close> works on: a node is in one
  place only, and inserting it somewhere takes it away from where it was.
\<close>

datatype node = Elem nat string "(string \<times> string) list" "node list" | Text string

fun nid :: "node \<Rightarrow> nat" where
  "nid (Elem i tg at ks) = i"
| "nid (Text t) = 0"

fun is_elem :: "node \<Rightarrow> bool" where
  "is_elem (Elem i tg at ks) = True"
| "is_elem (Text t) = False"

fun tagName :: "node \<Rightarrow> string" where
  "tagName (Elem i tg at ks) = tg"
| "tagName (Text t) = []"

text \<open>\<^verbatim>\<open>elem.getAttribute(name)\<close>; \<open>None\<close> is \<^verbatim>\<open>null\<close>.\<close>

fun getAttribute :: "string \<Rightarrow> node \<Rightarrow> string option" where
  "getAttribute k (Elem i tg at ks) = map_of at k"
| "getAttribute k (Text t) = None"

text \<open>\<^verbatim>\<open>elem.getAttribute(name) ?? ""\<close>\<close>

definition attribute_or_empty :: "string \<Rightarrow> node \<Rightarrow> string" where
  "attribute_or_empty k e = (case getAttribute k e of None \<Rightarrow> [] | Some v \<Rightarrow> v)"

text \<open>The elements among some nodes and their descendants, in document order.\<close>

fun elements :: "node list \<Rightarrow> node list" where
  "elements [] = []"
| "elements (Text t # ns) = elements ns"
| "elements (Elem i tg at ks # ns) = Elem i tg at ks # elements ks @ elements ns"

text \<open>
  \<^verbatim>\<open>clone.querySelectorAll("slot")\<close>: the descendants of the copy that are \<^verbatim>\<open>slot\<close>
  elements, in document order; the list is fixed when the call returns.
\<close>

fun querySelectorAll_slot :: "node \<Rightarrow> node list" where
  "querySelectorAll_slot (Elem i tg at ks) = filter (\<lambda>e. tagName e = ''slot'') (elements ks)"
| "querySelectorAll_slot (Text t) = []"

text \<open>
  \<^verbatim>\<open>Array.from(this.root.children).forEach((elem) =>
     slotDump.set(elem.getAttribute("slot") ?? "", elem))\<close>:
  \<^verbatim>\<open>children\<close> are the child nodes that are elements, and a later child with the same slot
  name takes the place of an earlier one in the map.
\<close>

definition slotDump_of :: "node list \<Rightarrow> (string \<Rightarrow> node option)" where
  "slotDump_of root_children =
     fold (\<lambda>elem m. m(attribute_or_empty ''slot'' elem \<mapsto> elem))
       (filter is_elem root_children) (\<lambda>_. None)"

text \<open>Taking the node with a given identity out of some nodes, at any depth.\<close>

fun remove_id :: "nat \<Rightarrow> node list \<Rightarrow> node list" where
  "remove_id a [] = []"
| "remove_id a (Text t # ns) = Text t # remove_id a ns"
| "remove_id a (Elem i tg at ks # ns) =
     (if i = a then remove_id a ns else Elem i tg at (remove_id a ks) # remove_id a ns)"

text \<open>Putting a node in the place of the node with a given identity, at any depth.\<close>

fun replace_id :: "nat \<Rightarrow> node \<Rightarrow> node list \<Rightarrow> node list" where
  "replace_id s x [] = []"
| "replace_id s x (Text t # ns) = Text t # replace_id s x ns"
| "replace_id s x (Elem i tg at ks # ns) =
     (if i = s then x # ns else Elem i tg at (replace_id s x ks) # replace_id s x ns)"

text \<open>
  \<^verbatim>\<open>elem.replaceWith(actual)\<close>, seen from the children of the copy. \<^verbatim>\<open>actual\<close> is first
  taken away from where it is; if that is in the copy, it disappears from there. Then
  it takes the place of \<^verbatim>\<open>elem\<close>. Every \<^verbatim>\<open>elem\<close> of the loop has a parent: it is in the
  copy, or inside a placeholder that an earlier step took out of the copy, and then the
  copy is not changed further. Nothing in the loop changes what is inside \<^verbatim>\<open>actual\<close>.
\<close>

definition replaceWith :: "node \<Rightarrow> node \<Rightarrow> node list \<Rightarrow> node list" where
  "replaceWith elem actual ns = replace_id (nid elem) actual (remove_id (nid actual) ns)"

text \<open>
  The slot part of \<^verbatim>\<open>assemble\<close>: the copy after
  \<^verbatim>\<open>clone.querySelectorAll("slot").forEach((elem) => {
     const slotName = elem.getAttribute("name") ?? "";
     const actual = slotDump.get(slotName);
     actual && elem.replaceWith(actual); })\<close>,
  given the copy and the child nodes of the root of the instance.
\<close>

definition forEach_slot :: "(string \<Rightarrow> node option) \<Rightarrow> node list \<Rightarrow> node list \<Rightarrow> node list" where
  "forEach_slot slotDump slots ns =
     fold (\<lambda>elem ns. case slotDump (attribute_or_empty ''name'' elem) of
                        None \<Rightarrow> ns
                      | Some actual \<Rightarrow> replaceWith elem actual ns) slots ns"

fun assemble_slots :: "node \<Rightarrow> node list \<Rightarrow> node" where
  "assemble_slots (Elem i tg at ks) root_children =
     Elem i tg at (forEach_slot (slotDump_of root_children) (querySelectorAll_slot (Elem i tg at ks)) ks)"
| "assemble_slots (Text t) root_children = Text t"

text \<open>
  An instance with one child, for slot \<open>a\<close>; a copy in which a placeholder named \<open>b\<close>
  lies inside a placeholder named \<open>a\<close>; and a copy with two placeholders named \<open>a\<close> and
  a rule between them.
\<close>

definition one_child :: "node list" where
  "one_child = [Elem 10 ''p'' [(''slot'', ''a'')] [Text ''hello'']]"

definition nested_template :: node where
  "nested_template =
     Elem 0 ''div'' []
       [Elem 1 ''slot'' [(''name'', ''a'')] [Elem 2 ''slot'' [(''name'', ''b'')] []]]"

definition repeated_template :: node where
  "repeated_template =
     Elem 0 ''div'' []
       [Elem 1 ''slot'' [(''name'', ''a'')] [], Elem 3 ''hr'' [] [],
        Elem 4 ''slot'' [(''name'', ''a'')] []]"

text \<open>
  A copy with a default placeholder, a placeholder named \<open>footer\<close> and a placeholder named
  \<open>aside\<close> with fallback content; the instance has an unnamed child and a child for the
  slot \<open>footer\<close>, with white space between them.
\<close>

definition page_template :: node where
  "page_template =
     Elem 0 ''div'' []
       [Elem 1 ''slot'' [] [], Text '', '',
        Elem 2 ''slot'' [(''name'', ''footer'')] [],
        Elem 3 ''slot'' [(''name'', ''aside'')] [Text ''none'']]"

definition page_children :: "node list" where
  "page_children =
     [Elem 10 ''p'' [] [Text ''body''], Text '' '',
      Elem 11 ''p'' [(''slot'', ''footer'')] [Text ''foot'']]"

text \<open>
  Following the words of the specification: every placeholder whose declared name has an
  entry in the slot map is replaced, in place, by that projected child, and everything
  else is left as it is. The placeholders inside an unfilled placeholder are treated in
  the same way; what was inside a filled placeholder is gone with it.
\<close>

fun project :: "(string \<Rightarrow> node option) \<Rightarrow> node list \<Rightarrow> node list" where
  "project m [] = []"
| "project m (Text t # ns) = Text t # project m ns"
| "project m (Elem i tg at ks # ns) =
     (case (if tg = ''slot'' then m (attribute_or_empty ''name'' (Elem i tg at ks)) else None) of
        Some x \<Rightarrow> x # project m ns
      | None \<Rightarrow> Elem i tg at (project m ks) # project m ns)"

text \<open>The same, for the placeholders whose identity is in a given set only.\<close>

fun project_on :: "nat set \<Rightarrow> (string \<Rightarrow> node option) \<Rightarrow> node list \<Rightarrow> node list" where
  "project_on A m [] = []"
| "project_on A m (Text t # ns) = Text t # project_on A m ns"
| "project_on A m (Elem i tg at ks # ns) =
     (case (if tg = ''slot'' \<and> i \<in> A then m (attribute_or_empty ''name'' (Elem i tg at ks))
            else None) of
        Some x \<Rightarrow> x # project_on A m ns
      | None \<Rightarrow> Elem i tg at (project_on A m ks) # project_on A m ns)"

text \<open>The identities of the elements among some nodes and their descendants.\<close>

definition ids :: "node list \<Rightarrow> nat list" where
  "ids ns = map nid (elements ns)"

section \<open>Properties of the key derivation and of the identity generator\<close>

text \<open>
  C7. For every entity name \<open>n\<close> and instance id \<open>i\<close> the derived storage key is
  \<open>n\<close>, a dot, then \<open>i\<close>; and for a fixed entity name two distinct instance ids derive
  two distinct keys.
\<close>

theorem key_derivation:
  "Dynel_key i n = n @ ''.'' @ i \<and> (i \<noteq> j \<longrightarrow> Dynel_key i n \<noteq> Dynel_key j n)"
  by (simp add: Dynel_key_def)

theorem key_derivation_witness:
  "Dynel_key ''42'' ''x'' = ''x.42'' \<and> Dynel_key ''42'' ''x'' \<noteq> Dynel_key ''43'' ''x''"
proof -
  have d: "''42'' \<noteq> ''43''" by simp
  from key_derivation [of "''42''" "''x''" "''43''"] d
  have "Dynel_key ''42'' ''x'' = ''x'' @ ''.'' @ ''42''"
    and "Dynel_key ''42'' ''x'' \<noteq> Dynel_key ''43'' ''x''" by blast+
  then show ?thesis by simp
qed

text \<open>
  C6. The claim is that two distinct instances never receive the same instance id. The
  generator multiplies the clock by 100 and adds a draw below 10000, so the draw
  overlaps the clock: an instance built at millisecond 1700000000000 with draw 150 and
  an instance built one millisecond later with draw 50 receive the same id.
\<close>

theorem uid_collision:
  "(150::nat) < 10000 \<and> (50::nat) < 10000 \<and>
   Dynel_uid 1700000000000 150 = Dynel_uid 1700000000001 50"
  by (simp add: Dynel_uid_def)

section \<open>Runs of callbacks\<close>

lemma final_simps [simp]: "final (Inl (e, s)) = s" "final (Inr s) = s"
  by (simp_all add: final_def)

lemma grows_refl: "grows w w"
  by (simp add: grows_def)

lemma grows_trans: "grows w w1 \<Longrightarrow> grows w1 w2 \<Longrightarrow> grows w w2"
  unfolding grows_def by (auto intro: map_le_trans)

lemma grows_store: "grows w (w\<lparr>states := (states w)(a := (states w a)\<lparr>st_value := v\<rparr>)\<rparr>)"
  by (simp add: grows_def)

lemma grows_subscribe: "grows w (State_subscribe a c w)"
  by (simp add: grows_def State_subscribe_def)

lemma grows_log: "grows w (w\<lparr>trace := trace w @ t\<rparr>)"
  by (simp add: grows_def)

lemma grows_has_or_create: "grows w (State_has_or_create nm w)"
  by (auto simp: grows_def State_has_or_create_def State_new_def State_registerInstance_def
      Let_def map_le_def)

lemma interp_grows:
  "State_set n a v w = Some r \<Longrightarrow> grows w (final r)"
  "forEach_setCallbacks n a cs w = Some r \<Longrightarrow> grows w (final r)"
  "invoke n who c p w = Some r \<Longrightarrow> grows w (final r)"
  "run_body n xs p w = Some r \<Longrightarrow> grows w (final r)"
  "State_set_static n nm v w = Some r \<Longrightarrow> grows w (final r)"
  "Event_trigger n e p w = Some r \<Longrightarrow> grows w (final r)"
  "forEach_listeners n e ls p w = Some r \<Longrightarrow> grows w (final r)"
  "Event_trigger_static n nm p w = Some r \<Longrightarrow> grows w (final r)"
proof (induction n a v w and n a cs w and n who c p w and n xs p w and n nm v w
    and n e p w and n e ls p w and n nm p w
    arbitrary: r and r and r and r and r and r and r and r
    rule: State_set_forEach_setCallbacks_invoke_run_body_State_set_static_Event_trigger_forEach_listeners_Event_trigger_static.induct)
  case (1 n a v w)
  from "1.prems" have "forEach_setCallbacks n a (setCallbacks (states w a))
       (w\<lparr>states := (states w)(a := (states w a)\<lparr>st_value := v\<rparr>)\<rparr>) = Some r" by simp
  from "1.IH" [OF this] grows_store [of w a v] show ?case by (rule grows_trans [rotated])
next
  case (2 n a w)
  then show ?case by (auto simp: grows_refl)
next
  case (3 n a c cs w)
  show ?case
  proof (cases "invoke n (BySet a) c (st_value (states w a)) w")
    case None
    with "3.prems" show ?thesis by simp
  next
    case (Some r1)
    show ?thesis
    proof (cases r1)
      case (Inl x)
      with Some "3.prems" have "r = r1" by simp
      with "3.IH"(1) [OF Some] show ?thesis by simp
    next
      case (Inr w1)
      with Some "3.prems" have "forEach_setCallbacks n a cs w1 = Some r" by simp
      from "3.IH"(2) [OF Some Inr this] "3.IH"(1) [OF Some] Inr
      show ?thesis by (auto intro: grows_trans)
    qed
  qed
next
  case (4 who c p w)
  then show ?case by simp
next
  case (5 n who c p w)
  from "5.prems" have "run_body n (body c) p (w\<lparr>trace := trace w @ [(who, cid c, p)]\<rparr>) = Some r"
    by simp
  from "5.IH" [OF this] grows_log [of w] show ?case by (rule grows_trans [rotated])
next
  case (6 n p w)
  then show ?case by (auto simp: grows_refl)
next
  case (7 n g a v xs p w)
  let ?R = "if guard_ok g p then State_set n a v w else Some (Inr w)"
  have g1: "grows w (final r1)" if "?R = Some r1" for r1
  proof (cases "guard_ok g p")
    case True
    with that "7.IH"(1) [OF True] show ?thesis by simp
  next
    case False
    with that show ?thesis by (auto simp: grows_refl)
  qed
  show ?case
  proof (cases ?R)
    case None
    with "7.prems" show ?thesis by simp
  next
    case (Some r1)
    show ?thesis
    proof (cases r1)
      case (Inl x)
      with Some "7.prems" have "r = r1" by simp
      with g1 [OF Some] show ?thesis by simp
    next
      case (Inr w1)
      with Some "7.prems" have "run_body n xs p w1 = Some r" by simp
      from "7.IH"(2) [OF Some Inr this] g1 [OF Some] Inr
      show ?thesis by (auto intro: grows_trans)
    qed
  qed
next
  case (8 n g nm v xs p w)
  let ?R = "if guard_ok g p then State_set_static n nm v w else Some (Inr w)"
  have g1: "grows w (final r1)" if "?R = Some r1" for r1
  proof (cases "guard_ok g p")
    case True
    with that "8.IH"(1) [OF True] show ?thesis by simp
  next
    case False
    with that show ?thesis by (auto simp: grows_refl)
  qed
  show ?case
  proof (cases ?R)
    case None
    with "8.prems" show ?thesis by simp
  next
    case (Some r1)
    show ?thesis
    proof (cases r1)
      case (Inl x)
      with Some "8.prems" have "r = r1" by simp
      with g1 [OF Some] show ?thesis by simp
    next
      case (Inr w1)
      with Some "8.prems" have "run_body n xs p w1 = Some r" by simp
      from "8.IH"(2) [OF Some Inr this] g1 [OF Some] Inr
      show ?thesis by (auto intro: grows_trans)
    qed
  qed
next
  case (9 n a c xs p w)
  from "9.prems" have "run_body n xs p (State_subscribe a c w) = Some r" by simp
  from "9.IH" [OF this] grows_subscribe [of w a c] show ?case by (rule grows_trans [rotated])
next
  case (10 n nm v xs p w)
  show ?case
  proof (cases "Event_trigger_static n nm v w")
    case None
    with "10.prems" show ?thesis by simp
  next
    case (Some r1)
    show ?thesis
    proof (cases r1)
      case (Inl x)
      with Some "10.prems" have "r = r1" by simp
      with "10.IH"(1) [OF Some] show ?thesis by simp
    next
      case (Inr w1)
      with Some "10.prems" have "run_body n xs p w1 = Some r" by simp
      from "10.IH"(2) [OF Some Inr this] "10.IH"(1) [OF Some] Inr
      show ?thesis by (auto intro: grows_trans)
    qed
  qed
next
  case (11 n xs p w)
  then show ?case by (auto simp: grows_refl)
next
  case (12 n nm v w)
  show ?case
  proof (cases "State_instanceMap (State_has_or_create nm w) nm")
    case None
    with "12.prems" show ?thesis by (simp add: Let_def)
  next
    case (Some b)
    with "12.prems" have "State_set n b v (State_has_or_create nm w) = Some r"
      by (simp add: Let_def)
    with "12.IH" [OF refl Some] have "grows (State_has_or_create nm w) (final r)" .
    with grows_has_or_create show ?thesis by (rule grows_trans)
  qed
next
  case (13 n e p w)
  then show ?case by simp
next
  case (14 n e p w)
  then show ?case by (auto simp: grows_refl)
next
  case (15 n e l ls p w)
  show ?case
  proof (cases "invoke n (ByTrigger e) l p w")
    case None
    with "15.prems" show ?thesis by simp
  next
    case (Some r1)
    show ?thesis
    proof (cases r1)
      case (Inl x)
      with Some "15.prems" have "r = r1" by simp
      with "15.IH"(1) [OF Some] show ?thesis by simp
    next
      case (Inr w1)
      with Some "15.prems" have "forEach_listeners n e ls p w1 = Some r" by simp
      from "15.IH"(2) [OF Some Inr this] "15.IH"(1) [OF Some] Inr
      show ?thesis by (auto intro: grows_trans)
    qed
  qed
next
  case (16 n nm p w)
  then show ?case by (auto simp: grows_refl split: option.splits)
qed

section \<open>Runs of callbacks that go down in a ranking\<close>

lemma grows_added: "grows w w' \<Longrightarrow> trace w' = trace w @ added w w'"
  by (auto simp: grows_def added_def)


lemma added_refl [simp]: "added w w = []"
  by (simp add: added_def)
















lemma called_by_append [simp]: "called_by s (t @ u) = called_by s t @ called_by s u"
  by (simp add: called_by_def)

lemma called_by_Cons [simp]: "called_by s ((s, x) # t) = (s, x) # called_by s t"
  by (simp add: called_by_def)




section \<open>Notification by the set method of a container\<close>








section \<open>The constructor of a container and the registry\<close>

text \<open>
  C5, as stated, fails. The constructor registers the new container under its name and
  overwrites the container that was registered there: a second container named \<open>x\<close>
  takes the place of the first in the registry, and so does a second unnamed container
  created in the same millisecond as the first.
\<close>

theorem State_new_replaces:
  "State_instanceMap registered_world ''x'' = Some 0 \<and>
   State_instanceMap (snd (State_new (Num 2) (Some ''x'') 0 registered_world)) ''x'' = Some 1 \<and>
   State_instanceMap (snd (State_new Undefined None 5 init_world)) ''5'' = Some 0 \<and>
   State_instanceMap (snd (State_new Undefined None 5 (snd (State_new Undefined None 5 init_world)))) ''5''
     = Some 1"
  by code_simp

lemma State_new_effect:
  "State_new init nm now w = (a, w') \<Longrightarrow>
      a = next_ref w \<and>
      State_instanceMap w' =
        (State_instanceMap w)((case nm of None \<Rightarrow> toString now | Some s \<Rightarrow> s) \<mapsto> a) \<and>
      states w' = (states w)
        (a := \<lparr>st_name = (case nm of None \<Rightarrow> toString now | Some s \<Rightarrow> s),
                st_value = init, setCallbacks = []\<rparr>) \<and>
      events w' = events w \<and> Event_instanceMap w' = Event_instanceMap w \<and>
      trace w' = trace w"
  by (auto simp: State_new_def State_registerInstance_def Let_def)

lemma State_set_static_keeps:
  assumes "State_instanceMap w k = Some b" and "State_set_static n k' v w = Some r"
  shows "State_instanceMap (final r) k = Some b"
proof -
  from interp_grows(5) [OF assms(2)] have "State_instanceMap w \<subseteq>\<^sub>m State_instanceMap (final r)"
    by (simp add: grows_def)
  with assms(1) show ?thesis by (metis domI map_le_def)
qed

text \<open>
  C5, amended. The constructor allocates the new container and registers it under its
  name (the given name, or the clock value as a string when none is given), in place of
  any container registered under that name before; every other key of the registry, every
  other container, the event registry and the trace are unchanged. The static
  \<^verbatim>\<open>State.set\<close> creates a container only for a name that has none, so a key that is
  registered keeps its container over every call of the static \<^verbatim>\<open>State.set\<close>, whether
  the call returns or throws.
\<close>

theorem State_new_registers:
  "(State_new init nm now w = (a, w') \<longrightarrow>
      a = next_ref w \<and>
      State_instanceMap w' =
        (State_instanceMap w)((case nm of None \<Rightarrow> toString now | Some s \<Rightarrow> s) \<mapsto> a) \<and>
      states w' = (states w)
        (a := \<lparr>st_name = (case nm of None \<Rightarrow> toString now | Some s \<Rightarrow> s),
                st_value = init, setCallbacks = []\<rparr>) \<and>
      events w' = events w \<and> Event_instanceMap w' = Event_instanceMap w \<and>
      trace w' = trace w) \<and>
   (State_instanceMap w k = Some b \<and> State_set_static n k' v w = Some r \<longrightarrow>
      State_instanceMap (final r) k = Some b)"
  using State_new_effect [of init nm now w a w'] State_set_static_keeps [of w k b n k' v r]
  by blast

theorem State_new_registers_witness:
  "State_instanceMap (snd (State_new (Num 2) (Some ''y'') 0 registered_world))
     = (State_instanceMap registered_world)(''y'' \<mapsto> next_ref registered_world) \<and>
   State_instanceMap registered_world ''x'' = Some 0 \<and>
   (\<exists>w''. State_set_static 1 ''x'' (Num 3) registered_world = Some (Inr w'') \<and>
           State_instanceMap w'' ''x'' = Some 0)"
proof -
  obtain a w' where n: "State_new (Num 2) (Some ''y'') 0 registered_world = (a, w')"
    by (cases "State_new (Num 2) (Some ''y'') 0 registered_world")
  from State_new_registers [of "Num 2" "Some ''y''" 0 registered_world a w'] n
  have "a = next_ref registered_world"
    and "State_instanceMap w' = (State_instanceMap registered_world)(''y'' \<mapsto> a)" by simp_all
  with n have 1: "State_instanceMap (snd (State_new (Num 2) (Some ''y'') 0 registered_world))
     = (State_instanceMap registered_world)(''y'' \<mapsto> next_ref registered_world)" by simp
  have 2: "State_instanceMap registered_world ''x'' = Some 0" by code_simp
  have "(case State_set_static 1 ''x'' (Num 3) registered_world of
           Some (Inr w'') \<Rightarrow> True | _ \<Rightarrow> False)" by code_simp
  then obtain w'' where 3: "State_set_static 1 ''x'' (Num 3) registered_world = Some (Inr w'')"
    by (auto split: option.splits sum.splits)
  from State_new_registers [of _ _ _ registered_world _ _ "''x''" 0 1 "''x''" "Num 3" "Inr w''",
      THEN conjunct2, THEN mp, OF conjI [OF 2 3]]
  have "State_instanceMap w'' ''x'' = Some 0" by simp
  with 1 2 3 show ?thesis by (intro conjI exI [of _ w''])
qed

section \<open>Triggering a named event\<close>







section \<open>Properties and state of an instance\<close>













section \<open>The scoping rewrite of scripts\<close>

lemma not_space_dollar: "\<not> is_space CHR ''$''"
  by (simp add: is_space_def)

lemma not_space_quote: "\<not> is_space CHR 0x22"
  by (simp add: is_space_def)

lemma not_space_paren: "\<not> is_space CHR ''(''"
  by (simp add: is_space_def)

lemma not_word_dollar: "\<not> is_word CHR ''$''"
  by (simp add: is_word_def)

lemma not_word_quote: "\<not> is_word CHR 0x22"
  by (simp add: is_word_def)

lemma not_word_hyphen: "\<not> is_word CHR ''-''"
  by (simp add: is_word_def)

lemma dropWhile_stop: "\<not> P d \<Longrightarrow> dropWhile P (t @ d # y) = dropWhile P t @ d # y"
  by (induction t) auto

lemma takeWhile_stop: "\<not> P d \<Longrightarrow> takeWhile P (t @ d # y) = takeWhile P t"
  by (induction t) auto

lemma expect_local:
  "c \<noteq> d \<Longrightarrow> expect c (t @ d # y) = map_option (\<lambda>r. r @ d # y) (expect c t)"
  by (cases t) (auto simp: expect_def)

lemma skip_spaces_local: "\<not> is_space d \<Longrightarrow> skip_spaces (t @ d # y) = skip_spaces t @ d # y"
  by (simp add: skip_spaces_def dropWhile_stop)

lemma strip_prefix_local:
  "d \<notin> set k \<Longrightarrow> strip_prefix k (t @ d # y) = map_option (\<lambda>r. r @ d # y) (strip_prefix k t)"
proof (induction k t rule: strip_prefix.induct)
  case (1 s)
  then show ?case by simp
next
  case (2 k ks)
  then show ?case by auto
next
  case (3 k ks x s)
  then show ?case by simp
qed

lemma keyword_local:
  "\<forall>k\<in>set ks. d \<notin> set k \<Longrightarrow>
   keyword ks (t @ d # y) = map_option (\<lambda>(k, r). (k, r @ d # y)) (keyword ks t)"
proof (induction ks)
  case Nil
  then show ?case by simp
next
  case (Cons k ks)
  then show ?case by (cases "strip_prefix k t") (simp_all add: strip_prefix_local)
qed

lemma name_tail_local:
  assumes "\<not> is_word d" and "d \<noteq> CHR ''-''"
  shows "name_tail (t @ d # y) = (fst (name_tail t), snd (name_tail t) @ d # y)"
proof (induction t rule: name_tail.induct)
  case (1 s)
  show ?case
  proof (cases s)
    case Nil
    with assms show ?thesis by (simp add: name_tail.simps split: list.splits)
  next
    case (Cons c s1)
    note s = this
    show ?thesis
    proof (cases s1)
      case Nil
      with s assms show ?thesis by (simp add: name_tail.simps [of "c # d # y"] name_tail.simps [of "[c]"])
    next
      case (Cons e s2)
      note s1 = this
      show ?thesis
      proof (cases "c = CHR ''-'' \<and> is_word e")
        case True
        from "1.IH" [OF s s1 True]
        have IH: "name_tail (dropWhile is_word s2 @ d # y)
          = (fst (name_tail (dropWhile is_word s2)), snd (name_tail (dropWhile is_word s2)) @ d # y)" .
        have "name_tail (s @ d # y) =
           (c # e # takeWhile is_word (s2 @ d # y) @ fst (name_tail (dropWhile is_word (s2 @ d # y))),
            snd (name_tail (dropWhile is_word (s2 @ d # y))))"
          using True s s1 by (subst name_tail.simps) (simp add: case_prod_beta)
        also have "\<dots> = (c # e # takeWhile is_word s2 @ fst (name_tail (dropWhile is_word s2)),
            snd (name_tail (dropWhile is_word s2)) @ d # y)"
          using assms(1) IH by (simp add: dropWhile_stop takeWhile_stop)
        also have "\<dots> = (fst (name_tail s), snd (name_tail s) @ d # y)"
          using True s s1 by (subst (1 2) name_tail.simps) (simp add: case_prod_beta)
        finally show ?thesis .
      next
        case False
        then have "name_tail (c # e # s2 @ d # y) = ([], c # e # s2 @ d # y)"
          by (subst name_tail.simps) auto
        moreover from False have "name_tail (c # e # s2) = ([], c # e # s2)"
          by (subst name_tail.simps) auto
        ultimately show ?thesis using s s1 by simp
      qed
    qed
  qed
qed

lemma match_name_local:
  assumes "\<not> is_word d" and "d \<noteq> CHR ''-''"
  shows "match_name (t @ d # y) = map_option (\<lambda>(n, r). (n, r @ d # y)) (match_name t)"
  using assms
  by (simp add: match_name_def takeWhile_stop dropWhile_stop name_tail_local case_prod_beta)

lemma match_subscription_local:
  assumes "t \<noteq> []"
  shows "match_subscription (t @ CHR ''$'' # y)
    = map_option (\<lambda>(g1, g3, r). (g1, g3, r @ CHR ''$'' # y)) (match_subscription t)"
proof -
  from assms obtain c t' where t: "t = c # t'" by (cases t) auto
  show ?thesis
  proof (cases "c = CHR ''$''")
    case False
    with t show ?thesis by (simp add: match_subscription_def expect_def)
  next
    case True
    have k: "\<forall>k\<in>set [''onProp'', ''onState'']. CHR ''$'' \<notin> set k" by simp
    show ?thesis
      unfolding match_subscription_def t True
      by (simp add: expect_def [of "CHR ''$''"] keyword_local [OF k] skip_spaces_local
          not_space_dollar expect_local match_name_local not_word_dollar
          bind_map_option map_option_bind comp_def case_prod_beta del: keyword.simps)
  qed
qed

lemma match_access_local:
  assumes "t \<noteq> []"
  shows "match_access (t @ CHR ''$'' # y)
    = map_option (\<lambda>(g1, g3, r). (g1, g3, r @ CHR ''$'' # y)) (match_access t)"
proof -
  from assms obtain c t' where t: "t = c # t'" by (cases t) auto
  show ?thesis
  proof (cases "c = CHR ''$''")
    case False
    with t show ?thesis by (simp add: match_access_def expect_def)
  next
    case True
    have k: "\<forall>k\<in>set [''prop'', ''ref'', ''state'']. CHR ''$'' \<notin> set k" by simp
    show ?thesis
      unfolding match_access_def t True
      by (simp add: expect_def [of "CHR ''$''"] keyword_local [OF k] skip_spaces_local
          not_space_dollar expect_local match_name_local not_word_dollar
          bind_map_option map_option_bind comp_def case_prod_beta del: keyword.simps)
  qed
qed

lemma replaceAll_subscriptions_append:
  "replaceAll_subscriptions uid (pre @ CHR ''$'' # y)
   = replaceAll_subscriptions uid pre @ replaceAll_subscriptions uid (CHR ''$'' # y)"
proof (induction uid pre rule: replaceAll_subscriptions.induct)
  case (1 uid)
  then show ?case by simp
next
  case (2 uid c cs)
  have m: "match_subscription ((c # cs) @ CHR ''$'' # y)
    = map_option (\<lambda>(g1, g3, r). (g1, g3, r @ CHR ''$'' # y)) (match_subscription (c # cs))"
    by (rule match_subscription_local) simp
  show ?case
  proof (cases "match_subscription (c # cs)")
    case None
    with m 2 show ?thesis by simp
  next
    case (Some x)
    obtain g1 g3 r where x: "x = (g1, g3, r)" by (cases x)
    with Some m 2 show ?thesis by simp
  qed
qed

lemma replaceAll_accesses_append:
  "replaceAll_accesses uid (pre @ CHR ''$'' # y)
   = replaceAll_accesses uid pre @ replaceAll_accesses uid (CHR ''$'' # y)"
proof (induction uid pre rule: replaceAll_accesses.induct)
  case (1 uid)
  then show ?case by simp
next
  case (2 uid c cs)
  have m: "match_access ((c # cs) @ CHR ''$'' # y)
    = map_option (\<lambda>(g1, g3, r). (g1, g3, r @ CHR ''$'' # y)) (match_access (c # cs))"
    by (rule match_access_local) simp
  show ?case
  proof (cases "match_access (c # cs)")
    case None
    with m 2 show ?thesis by simp
  next
    case (Some x)
    obtain g1 g3 r where x: "x = (g1, g3, r)" by (cases x)
    with Some m 2 show ?thesis by simp
  qed
qed

lemma match_subscription_dollar: "c \<noteq> CHR ''$'' \<Longrightarrow> match_subscription (c # s) = None"
  by (simp add: match_subscription_def expect_def)

lemma match_access_dollar: "c \<noteq> CHR ''$'' \<Longrightarrow> match_access (c # s) = None"
  by (simp add: match_access_def expect_def)

lemma takeWhile_all_stop: "list_all P q \<Longrightarrow> \<not> P d \<Longrightarrow> takeWhile P (q @ d # y) = q"
  by (induction q) auto

lemma dropWhile_all_stop: "list_all P q \<Longrightarrow> \<not> P d \<Longrightarrow> dropWhile P (q @ d # y) = d # y"
  by (induction q) auto

lemma replaceAll_subscriptions_copy:
  "CHR ''$'' \<notin> set u \<Longrightarrow> replaceAll_subscriptions uid (u @ v) = u @ replaceAll_subscriptions uid v"
proof (induction u)
  case Nil
  then show ?case by simp
next
  case (Cons a u)
  then have "a \<noteq> CHR ''$''" by auto
  with Cons show ?case by (simp add: match_subscription_dollar)
qed

lemma replaceAll_accesses_copy:
  "CHR ''$'' \<notin> set u \<Longrightarrow> replaceAll_accesses uid (u @ v) = u @ replaceAll_accesses uid v"
proof (induction u)
  case Nil
  then show ?case by simp
next
  case (Cons a u)
  then have "a \<noteq> CHR ''$''" by auto
  with Cons show ?case by (simp add: match_access_dollar)
qed

lemma skip_spaces_replaceAll_subscriptions:
  "skip_spaces (replaceAll_subscriptions uid s) = replaceAll_subscriptions uid (skip_spaces s)"
proof (induction s)
  case Nil
  then show ?case by (simp add: skip_spaces_def)
next
  case (Cons c s)
  show ?case
  proof (cases "is_space c")
    case True
    then have "c \<noteq> CHR ''$''" using not_space_dollar by auto
    with True Cons show ?thesis by (simp add: match_subscription_dollar skip_spaces_def)
  next
    case False
    show ?thesis
    proof (cases "match_subscription (c # s)")
      case None
      with False show ?thesis by (simp add: skip_spaces_def)
    next
      case (Some x)
      obtain g1 g3 r where x: "x = (g1, g3, r)" by (cases x)
      from Some x obtain k where "g1 = CHR ''$'' # k" by (auto elim: match_subscription_parts)
      with Some x False show ?thesis by (simp add: skip_spaces_def not_space_dollar)
    qed
  qed
qed

lemma name_tail_parts:
  assumes "list_all word_part ps" and "\<not> is_word d" and "d \<noteq> CHR ''-''"
  shows "name_tail (concat (map (\<lambda>p. CHR ''-'' # p) ps) @ d # y)
    = (concat (map (\<lambda>p. CHR ''-'' # p) ps), d # y)"
  using assms(1)
proof (induction ps)
  case Nil
  with assms(2,3) show ?case by (subst name_tail.simps) (auto split: list.splits)
next
  case (Cons p ps)
  then obtain e q where p: "p = e # q" "is_word e" "list_all is_word q"
    by (cases p) (auto simp: word_part_def)
  let ?rest = "concat (map (\<lambda>p. CHR ''-'' # p) ps) @ d # y"
  obtain d' y' where rest: "?rest = d' # y'" "\<not> is_word d'"
    using assms(2) not_word_hyphen by (cases ps) auto
  have tw: "takeWhile is_word (q @ ?rest) = q"
    using takeWhile_all_stop [OF p(3) rest(2), of y'] rest(1) by simp
  have dw: "dropWhile is_word (q @ ?rest) = ?rest"
    using dropWhile_all_stop [OF p(3) rest(2), of y'] rest(1) by simp
  from Cons have IH: "name_tail ?rest = (concat (map (\<lambda>p. CHR ''-'' # p) ps), d # y)" by simp
  have "name_tail (CHR ''-'' # e # q @ ?rest)
    = (CHR ''-'' # e # takeWhile is_word (q @ ?rest) @ fst (name_tail (dropWhile is_word (q @ ?rest))),
       snd (name_tail (dropWhile is_word (q @ ?rest))))"
    using p(2) by (subst name_tail.simps) (simp add: case_prod_beta)
  with tw dw IH p show ?case by simp
qed

lemma match_name_hyphenated:
  assumes "word_part w" and "list_all word_part ps" and "\<not> is_word d" and "d \<noteq> CHR ''-''"
  shows "match_name (hyphenated w ps @ d # y) = Some (hyphenated w ps, d # y)"
proof -
  let ?rest = "concat (map (\<lambda>p. CHR ''-'' # p) ps) @ d # y"
  obtain d' y' where rest: "?rest = d' # y'" "\<not> is_word d'"
    using assms(3) not_word_hyphen by (cases ps) auto
  from assms(1) have w: "w \<noteq> []" "list_all is_word w" by (simp_all add: word_part_def)
  have tw: "takeWhile is_word (w @ ?rest) = w"
    using takeWhile_all_stop [OF w(2) rest(2), of y'] rest(1) by simp
  have dw: "dropWhile is_word (w @ ?rest) = ?rest"
    using dropWhile_all_stop [OF w(2) rest(2), of y'] rest(1) by simp
  from tw dw w(1) name_tail_parts [OF assms(2,3,4), of y] show ?thesis
    by (simp add: match_name_def hyphenated_def)
qed

lemma hyphenated_no_dollar:
  assumes "word_part w" and "list_all word_part ps"
  shows "CHR ''$'' \<notin> set (hyphenated w ps)"
proof -
  have "\<And>p. word_part p \<Longrightarrow> CHR ''$'' \<notin> set p"
    using not_word_dollar by (auto simp: word_part_def list_all_iff)
  with assms show ?thesis by (auto simp: hyphenated_def list_all_iff)
qed

lemma digit_char_no_dollar: "d < 10 \<Longrightarrow> digit_char d \<noteq> CHR ''$''"
proof
  assume d: "d < 10" and "digit_char d = CHR ''$''"
  then have "(of_char (char_of (48 + d)) :: nat) = of_char CHR ''$''"
    by (simp add: digit_char_def)
  with d show False by simp
qed

lemma toString_no_dollar: "CHR ''$'' \<notin> set (toString n)"
proof (induction n rule: toString.induct)
  case (1 n)
  show ?case
  proof (cases "n < 10")
    case True
    then show ?thesis using digit_char_no_dollar [of n] by (subst toString.simps) auto
  next
    case False
    with 1 digit_char_no_dollar [of "n mod 10"] show ?thesis
      by (subst toString.simps) auto
  qed
qed

lemma Dynel_uid_no_dollar: "CHR ''$'' \<notin> set (Dynel_uid now rnd)"
  by (simp add: Dynel_uid_def toString_no_dollar)

lemma match_access_call:
  assumes f: "f \<in> set [''prop'', ''ref'', ''state'']"
    and nm: "word_part w" "list_all word_part ps" and ws: "list_all is_space ws2"
  shows "match_access (CHR ''$'' # f @ CHR ''('' # ws2 @ CHR 0x22 # hyphenated w ps @ CHR 0x22 # post)
    = Some (CHR ''$'' # f, hyphenated w ps, skip_spaces post)"
proof -
  let ?r1 = "CHR ''('' # ws2 @ CHR 0x22 # hyphenated w ps @ CHR 0x22 # post"
  from f have k: "keyword [''prop'', ''ref'', ''state''] (f @ ?r1) = Some (f, ?r1)" by auto
  have sp: "skip_spaces (ws2 @ CHR 0x22 # hyphenated w ps @ CHR 0x22 # post)
    = CHR 0x22 # hyphenated w ps @ CHR 0x22 # post"
    using dropWhile_all_stop [OF ws not_space_quote] by (simp add: skip_spaces_def)
  have n: "match_name (hyphenated w ps @ CHR 0x22 # post) = Some (hyphenated w ps, CHR 0x22 # post)"
    by (rule match_name_hyphenated [OF nm not_word_quote]) simp
  show ?thesis
    unfolding match_access_def
    by (simp add: expect_def k sp n del: keyword.simps)
qed

lemma match_subscription_call:
  assumes f: "f \<in> set [''onProp'', ''onState'']"
    and nm: "word_part w" "list_all word_part ps"
    and ws: "list_all is_space ws1" "list_all is_space ws2"
  shows "match_subscription
      (CHR ''$'' # f @ ws1 @ CHR ''('' # ws2 @ CHR 0x22 # hyphenated w ps @ CHR 0x22 # post)
    = Some (CHR ''$'' # f, hyphenated w ps, post)"
proof -
  let ?r1 = "ws1 @ CHR ''('' # ws2 @ CHR 0x22 # hyphenated w ps @ CHR 0x22 # post"
  from f have k: "keyword [''onProp'', ''onState''] (f @ ?r1) = Some (f, ?r1)" by auto
  have sp1: "skip_spaces ?r1 = CHR ''('' # ws2 @ CHR 0x22 # hyphenated w ps @ CHR 0x22 # post"
    using dropWhile_all_stop [OF ws(1) not_space_paren] by (simp add: skip_spaces_def)
  have sp2: "skip_spaces (ws2 @ CHR 0x22 # hyphenated w ps @ CHR 0x22 # post)
    = CHR 0x22 # hyphenated w ps @ CHR 0x22 # post"
    using dropWhile_all_stop [OF ws(2) not_space_quote] by (simp add: skip_spaces_def)
  have n: "match_name (hyphenated w ps @ CHR 0x22 # post) = Some (hyphenated w ps, CHR 0x22 # post)"
    by (rule match_name_hyphenated [OF nm not_word_quote]) simp
  show ?thesis
    unfolding match_subscription_def
    by (simp add: expect_def k sp1 sp2 n del: keyword.simps)
qed

lemma match_subscription_access:
  "f \<in> set [''prop'', ''ref'', ''state''] \<Longrightarrow> match_subscription (CHR ''$'' # f @ r) = None"
  by (auto simp: match_subscription_def expect_def)

lemma match_access_subscription:
  "f \<in> set [''onProp'', ''onState''] \<Longrightarrow> match_access (CHR ''$'' # f @ r) = None"
  by (auto simp: match_access_def expect_def)

lemma spaces_no_dollar: "list_all is_space ws \<Longrightarrow> CHR ''$'' \<notin> set ws"
  using not_space_dollar by (auto simp: list_all_iff)

lemma prepareScript_access:
  assumes f: "f \<in> set [''prop'', ''ref'', ''state'']"
    and nm: "word_part w" "list_all word_part ps" and ws: "list_all is_space ws2"
  shows "prepareScript uid
       (pre @ CHR ''$'' # f @ CHR ''('' # ws2 @ CHR 0x22 # hyphenated w ps @ CHR 0x22 # post)
     = prepareScript uid pre @
       CHR ''$'' # f @ [CHR ''('', CHR 0x22] @ uid @ [CHR 0x22, CHR '','', CHR 0x22] @
       hyphenated w ps @ [CHR 0x22] @ prepareScript uid (skip_spaces post)"
proof -
  let ?call = "f @ CHR ''('' # ws2 @ CHR 0x22 # hyphenated w ps @ [CHR 0x22]"
  have nd: "CHR ''$'' \<notin> set ?call"
    using f spaces_no_dollar [OF ws] hyphenated_no_dollar [OF nm] by auto
  have "replaceAll_subscriptions uid (CHR ''$'' # ?call @ post)
    = CHR ''$'' # replaceAll_subscriptions uid (?call @ post)"
    using match_subscription_access [OF f, of "CHR ''('' # ws2 @ CHR 0x22 # hyphenated w ps @ [CHR 0x22] @ post"]
    by simp
  also have "\<dots> = CHR ''$'' # ?call @ replaceAll_subscriptions uid post"
    using replaceAll_subscriptions_copy [OF nd] by simp
  finally have 1: "replaceAll_subscriptions uid (pre @ CHR ''$'' # ?call @ post)
    = replaceAll_subscriptions uid pre @ CHR ''$'' # ?call @ replaceAll_subscriptions uid post"
    by (simp add: replaceAll_subscriptions_append)
  let ?q = "replaceAll_subscriptions uid post"
  have 2: "replaceAll_accesses uid (CHR ''$'' # ?call @ ?q)
    = CHR ''$'' # f @ [CHR ''('', CHR 0x22] @ uid @ [CHR 0x22, CHR '','', CHR 0x22] @
      hyphenated w ps @ [CHR 0x22] @ replaceAll_accesses uid (skip_spaces ?q)"
    using match_access_call [OF f nm ws, of ?q] by simp
  have "prepareScript uid (pre @ CHR ''$'' # ?call @ post)
    = replaceAll_accesses uid (replaceAll_subscriptions uid pre @ CHR ''$'' # ?call @ ?q)"
    unfolding prepareScript_def 1 ..
  also have "\<dots> = replaceAll_accesses uid (replaceAll_subscriptions uid pre) @
      replaceAll_accesses uid (CHR ''$'' # ?call @ ?q)"
    by (rule replaceAll_accesses_append)
  finally show ?thesis
    unfolding 2 by (simp add: prepareScript_def skip_spaces_replaceAll_subscriptions)
qed

lemma prepareScript_subscription:
  assumes f: "f \<in> set [''onProp'', ''onState'']"
    and nm: "word_part w" "list_all word_part ps"
    and ws: "list_all is_space ws1" "list_all is_space ws2"
    and uid: "CHR ''$'' \<notin> set uid"
  shows "prepareScript uid
       (pre @ CHR ''$'' # f @ ws1 @ CHR ''('' # ws2 @ CHR 0x22 # hyphenated w ps @ CHR 0x22 # post)
     = prepareScript uid pre @
       CHR ''$'' # f @ [CHR ''('', CHR 0x22] @ uid @ [CHR 0x22, CHR '','', CHR '' '', CHR 0x22] @
       hyphenated w ps @ [CHR 0x22] @ prepareScript uid post"
proof -
  let ?call = "f @ ws1 @ CHR ''('' # ws2 @ CHR 0x22 # hyphenated w ps @ [CHR 0x22]"
  let ?out = "f @ [CHR ''('', CHR 0x22] @ uid @ [CHR 0x22, CHR '','', CHR '' '', CHR 0x22] @
       hyphenated w ps @ [CHR 0x22]"
  let ?q = "replaceAll_subscriptions uid post"
  have "replaceAll_subscriptions uid (CHR ''$'' # ?call @ post) = CHR ''$'' # ?out @ ?q"
    using match_subscription_call [OF f nm ws, of post] by simp
  then have 1: "replaceAll_subscriptions uid (pre @ CHR ''$'' # ?call @ post)
    = replaceAll_subscriptions uid pre @ CHR ''$'' # ?out @ ?q"
    by (simp add: replaceAll_subscriptions_append)
  have nd: "CHR ''$'' \<notin> set ?out"
    using f uid hyphenated_no_dollar [OF nm] by auto
  have "replaceAll_accesses uid (CHR ''$'' # ?out @ ?q)
    = CHR ''$'' # replaceAll_accesses uid (?out @ ?q)"
    using match_access_subscription [OF f, of "[CHR ''('', CHR 0x22] @ uid @ [CHR 0x22, CHR '','', CHR '' '', CHR 0x22] @
       hyphenated w ps @ [CHR 0x22] @ ?q"]
    by simp
  also have "\<dots> = CHR ''$'' # ?out @ replaceAll_accesses uid ?q"
    using replaceAll_accesses_copy [OF nd] by simp
  finally have 2: "replaceAll_accesses uid (CHR ''$'' # ?out @ ?q)
    = CHR ''$'' # ?out @ replaceAll_accesses uid ?q" .
  have "prepareScript uid (pre @ CHR ''$'' # ?call @ post)
    = replaceAll_accesses uid (replaceAll_subscriptions uid pre @ CHR ''$'' # ?out @ ?q)"
    unfolding prepareScript_def 1 ..
  also have "\<dots> = replaceAll_accesses uid (replaceAll_subscriptions uid pre) @
      replaceAll_accesses uid (CHR ''$'' # ?out @ ?q)"
    by (rule replaceAll_accesses_append)
  finally show ?thesis
    unfolding 2 by (simp add: prepareScript_def)
qed

text \<open>
  C3, as stated, fails. A call of \<^verbatim>\<open>$state\<close> with white space before the parenthesis and
  a call of \<^verbatim>\<open>$prop\<close> whose name is in single quotes are calls of the listed functions
  on a quoted name, and the rewrite leaves both as they are; the same white space after
  \<^verbatim>\<open>$onState\<close> is accepted.
\<close>

theorem prepareScript_unrecognised:
  \<open>prepareScript (Dynel_uid 1700000000000 150) ''$state ("count")'' = ''$state ("count")'' \<and>
   prepareScript (Dynel_uid 1700000000000 150) ''$prop('count')'' = ''$prop('count')'' \<and>
   prepareScript (Dynel_uid 1700000000000 150) ''$onState ("count")''
     = ''$onState("170000000000150", "count")''\<close>
proof -
  have u: "Dynel_uid 1700000000000 150 = ''170000000000150''"
    by (simp add: Dynel_uid_def toString.simps digit_char_def char_of_eq_iff)
  show ?thesis unfolding u by code_simp
qed

text \<open>
  C3, amended. For every script text and every place in it (any text \<open>pre\<close> before and
  \<open>post\<close> after): a call of \<^verbatim>\<open>$prop\<close>, \<^verbatim>\<open>$ref\<close> or \<^verbatim>\<open>$state\<close> written as the function name,
  the opening parenthesis at once, optional white space and a name in double quotes, and
  a call of \<^verbatim>\<open>$onProp\<close> or \<^verbatim>\<open>$onState\<close> written as the function name, optional white space,
  the opening parenthesis, optional white space and a name in double quotes, where the
  name is a run of word characters followed by any number of hyphen-separated runs, is
  rewritten to the function name, the parenthesis, the uid of the instance in double
  quotes as first argument, a comma, and the original name in double quotes; the text
  before and the text after are rewritten on their own (after \<^verbatim>\<open>$prop\<close>, \<^verbatim>\<open>$ref\<close> and
  \<^verbatim>\<open>$state\<close> the white space that follows the name is dropped).
\<close>

theorem prepareScript_scopes:
  \<open>word_part w \<and> list_all word_part ps \<and> list_all is_space ws1 \<and> list_all is_space ws2 \<longrightarrow>
   (f \<in> set [''prop'', ''ref'', ''state''] \<longrightarrow>
      prepareScript (Dynel_uid now rnd)
        (pre @ ''$'' @ f @ ''('' @ ws2 @ ''"'' @ hyphenated w ps @ ''"'' @ post)
      = prepareScript (Dynel_uid now rnd) pre @
        ''$'' @ f @ ''("'' @ Dynel_uid now rnd @ ''","'' @ hyphenated w ps @ ''"'' @
        prepareScript (Dynel_uid now rnd) (skip_spaces post)) \<and>
   (f \<in> set [''onProp'', ''onState''] \<longrightarrow>
      prepareScript (Dynel_uid now rnd)
        (pre @ ''$'' @ f @ ws1 @ ''('' @ ws2 @ ''"'' @ hyphenated w ps @ ''"'' @ post)
      = prepareScript (Dynel_uid now rnd) pre @
        ''$'' @ f @ ''("'' @ Dynel_uid now rnd @ ''", "'' @ hyphenated w ps @ ''"'' @
        prepareScript (Dynel_uid now rnd) post)\<close>
proof (intro impI conjI)
  assume a: "word_part w \<and> list_all word_part ps \<and> list_all is_space ws1 \<and> list_all is_space ws2"
    and f: "f \<in> set [''prop'', ''ref'', ''state'']"
  from a have "word_part w" "list_all word_part ps" "list_all is_space ws2" by simp_all
  from prepareScript_access [OF f this, where uid = "Dynel_uid now rnd" and pre = pre and post = post]
  show \<open>prepareScript (Dynel_uid now rnd)
        (pre @ ''$'' @ f @ ''('' @ ws2 @ ''"'' @ hyphenated w ps @ ''"'' @ post)
      = prepareScript (Dynel_uid now rnd) pre @
        ''$'' @ f @ ''("'' @ Dynel_uid now rnd @ ''","'' @ hyphenated w ps @ ''"'' @
        prepareScript (Dynel_uid now rnd) (skip_spaces post)\<close>
    by simp
next
  assume a: "word_part w \<and> list_all word_part ps \<and> list_all is_space ws1 \<and> list_all is_space ws2"
    and f: "f \<in> set [''onProp'', ''onState'']"
  from a have "word_part w" "list_all word_part ps" "list_all is_space ws1" "list_all is_space ws2"
    by simp_all
  from prepareScript_subscription [OF f this Dynel_uid_no_dollar, where pre = pre and post = post]
  show \<open>prepareScript (Dynel_uid now rnd)
        (pre @ ''$'' @ f @ ws1 @ ''('' @ ws2 @ ''"'' @ hyphenated w ps @ ''"'' @ post)
      = prepareScript (Dynel_uid now rnd) pre @
        ''$'' @ f @ ''("'' @ Dynel_uid now rnd @ ''", "'' @ hyphenated w ps @ ''"'' @
        prepareScript (Dynel_uid now rnd) post\<close>
    by simp
qed

theorem prepareScript_scopes_witness:
  \<open>word_part ''n'' \<and> list_all word_part [''a''] \<and> list_all is_space '' '' \<and> list_all is_space [] \<and>
   prepareScript (Dynel_uid 1 5) (''x = '' @ ''$'' @ ''state'' @ ''('' @ [] @ ''"'' @ hyphenated ''n'' [''a''] @ ''"'' @ '', 3)'')
     = ''x = $state("105","n-a", 3)'' \<and>
   prepareScript (Dynel_uid 1 5) (''x = '' @ ''$'' @ ''onState'' @ '' '' @ ''('' @ [] @ ''"'' @ hyphenated ''n'' [''a''] @ ''"'' @ '', 3)'')
     = ''x = $onState("105", "n-a", 3)''\<close>
proof -
  have h: "word_part ''n'' \<and> list_all word_part [''a''] \<and> list_all is_space '' '' \<and> list_all is_space []"
    by code_simp
  have u: "Dynel_uid 1 5 = ''105''" by code_simp
  have n: "hyphenated ''n'' [''a''] = ''n-a''" by code_simp
  have p: "prepareScript ''105'' ''x = '' = ''x = ''" by code_simp
  have q: "prepareScript ''105'' (skip_spaces '', 3)'') = '', 3)''" by code_simp
  have q': "prepareScript ''105'' '', 3)'' = '', 3)''" by code_simp
  have f1: "''state'' \<in> set [''prop'', ''ref'', ''state'']" by simp
  have f2: "''onState'' \<in> set [''onProp'', ''onState'']" by simp
  have 1: \<open>prepareScript (Dynel_uid 1 5)
        (''x = '' @ ''$'' @ ''state'' @ ''('' @ [] @ ''"'' @ hyphenated ''n'' [''a''] @ ''"'' @ '', 3)'')
      = prepareScript (Dynel_uid 1 5) ''x = '' @
        ''$'' @ ''state'' @ ''("'' @ Dynel_uid 1 5 @ ''","'' @ hyphenated ''n'' [''a''] @ ''"'' @
        prepareScript (Dynel_uid 1 5) (skip_spaces '', 3)'')\<close>
    by (rule prepareScript_scopes [of "''n''" "[''a'']" "'' ''" "[]" "''state''" 1 5 "''x = ''" "'', 3)''",
          THEN mp, OF h, THEN conjunct1, THEN mp, OF f1])
  have 2: \<open>prepareScript (Dynel_uid 1 5)
        (''x = '' @ ''$'' @ ''onState'' @ '' '' @ ''('' @ [] @ ''"'' @ hyphenated ''n'' [''a''] @ ''"'' @ '', 3)'')
      = prepareScript (Dynel_uid 1 5) ''x = '' @
        ''$'' @ ''onState'' @ ''("'' @ Dynel_uid 1 5 @ ''", "'' @ hyphenated ''n'' [''a''] @ ''"'' @
        prepareScript (Dynel_uid 1 5) '', 3)''\<close>
    by (rule prepareScript_scopes [of "''n''" "[''a'']" "'' ''" "[]" "''onState''" 1 5 "''x = ''" "'', 3)''",
          THEN mp, OF h, THEN conjunct2, THEN mp, OF f2])
  from 1 have e1: \<open>prepareScript (Dynel_uid 1 5)
        (''x = '' @ ''$'' @ ''state'' @ ''('' @ [] @ ''"'' @ hyphenated ''n'' [''a''] @ ''"'' @ '', 3)'')
     = ''x = $state("105","n-a", 3)''\<close>
    unfolding u n p q by simp
  from 2 have e2: \<open>prepareScript (Dynel_uid 1 5)
        (''x = '' @ ''$'' @ ''onState'' @ '' '' @ ''('' @ [] @ ''"'' @ hyphenated ''n'' [''a''] @ ''"'' @ '', 3)'')
     = ''x = $onState("105", "n-a", 3)''\<close>
    unfolding u n p q' by simp
  show ?thesis using conjI [OF h conjI [OF e1 e2]] by (simp only: conj_assoc)
qed

section \<open>Slot projection\<close>

lemma elements_append: "elements (xs @ ys) = elements xs @ elements ys"
  by (induction xs rule: elements.induct) simp_all

lemma ids_append: "ids (xs @ ys) = ids xs @ ids ys"
  by (simp add: ids_def elements_append)

lemma ids_Elem: "ids (Elem i tg at ks # ns) = i # ids ks @ ids ns"
  by (simp add: ids_def)

lemma ids_Text: "ids (Text t # ns) = ids ns"
  by (simp add: ids_def)

lemma ids_Nil: "ids [] = []"
  by (simp add: ids_def)

lemma remove_id_absent: "a \<notin> set (ids ns) \<Longrightarrow> remove_id a ns = ns"
  by (induction a ns rule: remove_id.induct) (auto simp: ids_Elem ids_Text)

lemma replace_id_absent: "s \<notin> set (ids ns) \<Longrightarrow> replace_id s x ns = ns"
  by (induction s x ns rule: replace_id.induct) (auto simp: ids_Elem ids_Text)

lemma project_on_empty: "project_on {} m ns = ns"
  by (induction "{} :: nat set" m ns rule: project_on.induct) simp_all

lemma project_on_all:
  "\<forall>e\<in>set (elements ns). tagName e = ''slot'' \<longrightarrow> nid e \<in> A \<Longrightarrow> project_on A m ns = project m ns"
proof (induction A m ns rule: project_on.induct)
  case (1 A m)
  then show ?case by simp
next
  case (2 A m t ns)
  then show ?case by simp
next
  case (3 A m i tg at ks ns)
  then show ?case by (auto split: option.splits)
qed

lemma project_on_cong:
  "\<forall>i\<in>set (ids ns). i \<in> A \<longleftrightarrow> i \<in> B \<Longrightarrow> project_on A m ns = project_on B m ns"
proof (induction A m ns rule: project_on.induct)
  case (1 A m)
  then show ?case by simp
next
  case (2 A m t ns)
  then show ?case by (simp add: ids_Text)
next
  case (3 A m i tg at ks ns)
  then show ?case by (auto simp: ids_Elem split: option.splits)
qed

lemma project_on_insert_absent:
  "s \<notin> set (ids ns) \<Longrightarrow> project_on (insert s A) m ns = project_on A m ns"
  by (rule project_on_cong) auto

lemma attribute_or_empty_Elem [simp]:
  "attribute_or_empty k (Elem i tg at ks) = (case map_of at k of None \<Rightarrow> [] | Some v \<Rightarrow> v)"
  by (simp add: attribute_or_empty_def)

lemma replace_id_skip:
  "s \<notin> set (ids [y]) \<Longrightarrow> replace_id s x (y # rest) = y # replace_id s x rest"
  by (cases y) (auto simp: ids_Elem ids_Nil replace_id_absent)

lemma replace_project_on:
  assumes "s \<notin> A"
    and "\<forall>n y. m n = Some y \<longrightarrow> s \<notin> set (ids [y])"
  shows "distinct (ids ns) \<Longrightarrow>
    \<forall>e\<in>set (elements ns). nid e = s \<longrightarrow>
       tagName e = ''slot'' \<and> m (attribute_or_empty ''name'' e) = Some x \<Longrightarrow>
    replace_id s x (project_on A m ns) = project_on (insert s A) m ns"
proof (induction ns rule: elements.induct)
  case 1
  then show ?case by simp
next
  case (2 t ns)
  then show ?case by (simp add: ids_Text)
next
  case (3 i tg at ks ns)
  from "3.prems"(1) have d: "distinct (ids ks)" "distinct (ids ns)" "i \<notin> set (ids ks)"
    "i \<notin> set (ids ns)"
    by (simp_all add: ids_Elem)
  from "3.prems"(2) have e: "\<forall>e\<in>set (elements ks). nid e = s \<longrightarrow>
       tagName e = ''slot'' \<and> m (attribute_or_empty ''name'' e) = Some x"
    "\<forall>e\<in>set (elements ns). nid e = s \<longrightarrow>
       tagName e = ''slot'' \<and> m (attribute_or_empty ''name'' e) = Some x"
    by simp_all
  note IHk = "3.IH"(1) [OF d(1) e(1)]
  note IHn = "3.IH"(2) [OF d(2) e(2)]
  show ?case
  proof (cases "i = s")
    case True
    with "3.prems"(2) have slot: "tg = ''slot''"
      and mx: "m (attribute_or_empty ''name'' (Elem i tg at ks)) = Some x"
      by simp_all
    from True d(4) have "project_on (insert s A) m ns = project_on A m ns"
      by (simp add: project_on_insert_absent)
    with True slot mx assms(1) show ?thesis by simp
  next
    case False
    show ?thesis
    proof (cases "if tg = ''slot'' \<and> i \<in> A then m (attribute_or_empty ''name'' (Elem i tg at ks)) else None")
      case None
      with False have "(if tg = ''slot'' \<and> i \<in> insert s A
          then m (attribute_or_empty ''name'' (Elem i tg at ks)) else None) = None"
        by (auto split: if_splits)
      with None False IHk IHn show ?thesis by simp
    next
      case (Some y)
      with False have S': "(if tg = ''slot'' \<and> i \<in> insert s A
          then m (attribute_or_empty ''name'' (Elem i tg at ks)) else None) = Some y"
        by (auto split: if_splits)
      from Some have "m (attribute_or_empty ''name'' (Elem i tg at ks)) = Some y"
        by (auto split: if_splits)
      with assms(2) have "s \<notin> set (ids [y])" by blast
      with Some S' IHn show ?thesis by (simp add: replace_id_skip)
    qed
  qed
qed

lemma project_on_insert_unmatched:
  "\<forall>e\<in>set (elements ns). nid e = s \<longrightarrow> m (attribute_or_empty ''name'' e) = None \<Longrightarrow>
   project_on (insert s A) m ns = project_on A m ns"
proof (induction ns rule: elements.induct)
  case 1
  then show ?case by simp
next
  case (2 t ns)
  then show ?case by simp
next
  case (3 i tg at ks ns)
  then have kk: "project_on (insert s A) m ks = project_on A m ks"
    and nn: "project_on (insert s A) m ns = project_on A m ns"
    by simp_all
  have c: "(if tg = ''slot'' \<and> i \<in> insert s A
          then m (attribute_or_empty ''name'' (Elem i tg at ks)) else None)
     = (if tg = ''slot'' \<and> i \<in> A
          then m (attribute_or_empty ''name'' (Elem i tg at ks)) else None)"
    using "3.prems" by auto
  show ?case by (simp only: project_on.simps c kk nn)
qed

lemma ids_project_on:
  "j \<in> set (ids (project_on A m ns)) \<Longrightarrow>
   j \<in> set (ids ns) \<or>
   (\<exists>e y. e \<in> set (elements ns) \<and> nid e \<in> A \<and> m (attribute_or_empty ''name'' e) = Some y \<and>
          j \<in> set (ids [y]))"
proof (induction ns rule: elements.induct)
  case 1
  then show ?case by simp
next
  case (2 t ns)
  then show ?case by (auto simp: ids_Text)
next
  case (3 i tg at ks ns)
  show ?case
  proof (cases "if tg = ''slot'' \<and> i \<in> A then m (attribute_or_empty ''name'' (Elem i tg at ks)) else None")
    case None
    with "3.prems" have "j = i \<or> j \<in> set (ids (project_on A m ks)) \<or> j \<in> set (ids (project_on A m ns))"
      by (auto simp: ids_Elem)
    with "3.IH" show ?thesis by (auto simp: ids_Elem)
  next
    case (Some y)
    then have y: "i \<in> A" "m (attribute_or_empty ''name'' (Elem i tg at ks)) = Some y"
      by (auto split: if_splits)
    from Some "3.prems" have "j \<in> set (ids (y # project_on A m ns))" by simp
    then have "j \<in> set (ids [y]) \<or> j \<in> set (ids (project_on A m ns))"
      using ids_append [of "[y]" "project_on A m ns"] by auto
    then show ?thesis
    proof
      assume "j \<in> set (ids [y])"
      with y show ?thesis by (intro disjI2 exI [of _ "Elem i tg at ks"] exI [of _ y]) simp
    next
      assume "j \<in> set (ids (project_on A m ns))"
      with "3.IH"(2) show ?thesis by (auto simp: ids_Elem)
    qed
  qed
qed

lemma slotDump_fold:
  "fold (\<lambda>elem m. m(attribute_or_empty ''slot'' elem \<mapsto> elem)) xs m0 n = Some y \<Longrightarrow>
   (y \<in> set xs \<and> attribute_or_empty ''slot'' y = n) \<or> m0 n = Some y"
proof (induction xs arbitrary: m0)
  case Nil
  then show ?case by simp
next
  case (Cons z xs)
  from Cons.prems
  have "fold (\<lambda>elem m. m(attribute_or_empty ''slot'' elem \<mapsto> elem)) xs
          (m0(attribute_or_empty ''slot'' z \<mapsto> z)) n = Some y"
    by (simp only: fold_simps)
  from Cons.IH [OF this] show ?case by (auto split: if_splits)
qed

lemma slotDump_of_Some:
  "slotDump_of rc n = Some y \<Longrightarrow> y \<in> set rc \<and> is_elem y \<and> attribute_or_empty ''slot'' y = n"
  using slotDump_fold [of "filter is_elem rc" "\<lambda>_. None" n y]
  by (auto simp: slotDump_of_def)

lemma ids_member: "y \<in> set ns \<Longrightarrow> set (ids [y]) \<subseteq> set (ids ns)"
proof (induction ns)
  case Nil
  then show ?case by simp
next
  case (Cons z ns)
  have "ids (z # ns) = ids [z] @ ids ns" using ids_append [of "[z]" ns] by simp
  with Cons show ?case by auto
qed

lemma ids_disjoint:
  "distinct (ids ns) \<Longrightarrow> y \<in> set ns \<Longrightarrow> y' \<in> set ns \<Longrightarrow> y \<noteq> y' \<Longrightarrow>
   set (ids [y]) \<inter> set (ids [y']) = {}"
proof (induction ns)
  case Nil
  then show ?case by simp
next
  case (Cons z ns)
  have a: "ids (z # ns) = ids [z] @ ids ns" using ids_append [of "[z]" ns] by simp
  with Cons.prems(1) have d: "distinct (ids ns)" "set (ids [z]) \<inter> set (ids ns) = {}"
    by auto
  show ?case
  proof (cases "y = z")
    case True
    with Cons.prems have "y' \<in> set ns" by auto
    from ids_member [OF this] d(2) True show ?thesis by auto
  next
    case False
    note yz = this
    show ?thesis
    proof (cases "y' = z")
      case True
      with Cons.prems yz have "y \<in> set ns" by auto
      from ids_member [OF this] d(2) True show ?thesis by auto
    next
      case False
      with yz Cons.prems have "y \<in> set ns" "y' \<in> set ns" by auto
      from Cons.IH [OF d(1) this Cons.prems(4)] show ?thesis .
    qed
  qed
qed

lemma nid_in_ids: "is_elem y \<Longrightarrow> nid y \<in> set (ids [y])"
  by (cases y) (simp_all add: ids_Elem)

lemma element_by_id:
  assumes "distinct (ids ns)" and "e \<in> set (elements ns)" and "e' \<in> set (elements ns)"
    and "nid e = nid e'"
  shows "e = e'"
proof -
  from assms(1) have "inj_on nid (set (elements ns))"
    by (simp add: ids_def distinct_map)
  with assms(2,3,4) show ?thesis by (auto dest: inj_onD)
qed

lemma forEach_slot_Cons:
  "forEach_slot m (e # todo) ns =
     forEach_slot m todo
       (case m (attribute_or_empty ''name'' e) of None \<Rightarrow> ns | Some actual \<Rightarrow> replaceWith e actual ns)"
  by (simp add: forEach_slot_def)

lemma forEach_slot_project_on:
  assumes wf: "distinct (ids (ks @ rc))"
  shows "filter (\<lambda>e. tagName e = ''slot'') (elements ks) = done @ todo \<Longrightarrow>
    distinct (map (attribute_or_empty ''name'')
       (filter (\<lambda>e. slotDump_of rc (attribute_or_empty ''name'' e) \<noteq> None) (done @ todo))) \<Longrightarrow>
    forEach_slot (slotDump_of rc) todo (project_on (set (map nid done)) (slotDump_of rc) ks)
      = project_on (set (map nid (done @ todo))) (slotDump_of rc) ks"
proof (induction todo arbitrary: "done")
  case Nil
  then show ?case by (simp add: forEach_slot_def)
next
  case (Cons e todo)
  let ?m = "slotDump_of rc"
  let ?A = "set (map nid done)"
  let ?P = "project_on ?A ?m ks"
  let ?name = "attribute_or_empty ''name''"
  from wf have dk: "distinct (ids ks)" and dr: "distinct (ids rc)"
    and disj: "set (ids ks) \<inter> set (ids rc) = {}"
    by (simp_all add: ids_append)
  have "e \<in> set (filter (\<lambda>e. tagName e = ''slot'') (elements ks))"
    unfolding Cons.prems(1) by simp
  then have e_in: "e \<in> set (elements ks)" and e_slot: "tagName e = ''slot''" by simp_all
  have done_in: "set done \<subseteq> set (elements ks)"
  proof -
    have "set done \<subseteq> set (filter (\<lambda>e. tagName e = ''slot'') (elements ks))"
      unfolding Cons.prems(1) by auto
    then show ?thesis by auto
  qed
  have "distinct (map nid (filter (\<lambda>e. tagName e = ''slot'') (elements ks)))"
    using dk by (simp add: ids_def distinct_map_filter)
  then have "distinct (map nid (done @ e # todo))" unfolding Cons.prems(1) .
  then have s_new: "nid e \<notin> ?A" by auto
  have uniq: "e' = e" if "e' \<in> set (elements ks)" "nid e' = nid e" for e'
    using element_by_id [OF dk that(1) e_in that(2)] .
  have s_ks: "nid e \<in> set (ids ks)" using e_in by (simp add: ids_def)
  have next_A: "set (map nid (done @ [e])) = insert (nid e) ?A" by simp
  have step: "(case ?m (?name e) of None \<Rightarrow> ?P | Some actual \<Rightarrow> replaceWith e actual ?P)
      = project_on (insert (nid e) ?A) ?m ks"
  proof (cases "?m (?name e)")
    case None
    have "project_on (insert (nid e) ?A) ?m ks = ?P"
    proof (rule project_on_insert_unmatched, intro ballI impI)
      fix e' assume a: "e' \<in> set (elements ks)" "nid e' = nid e"
      from uniq [OF a] None show "?m (?name e') = None" by simp
    qed
    with None show ?thesis by simp
  next
    case (Some x)
    from slotDump_of_Some [OF Some] have x: "x \<in> set rc" "is_elem x"
      "attribute_or_empty ''slot'' x = ?name e" by simp_all
    have x_rc: "set (ids [x]) \<subseteq> set (ids rc)" using ids_member [OF x(1)] .
    have x_id: "nid x \<in> set (ids [x])" using nid_in_ids [OF x(2)] .
    have absent: "nid x \<notin> set (ids ?P)"
    proof
      assume "nid x \<in> set (ids ?P)"
      from ids_project_on [OF this] show False
      proof
        assume "nid x \<in> set (ids ks)"
        with x_id x_rc disj show False by auto
      next
        assume "\<exists>e' y. e' \<in> set (elements ks) \<and> nid e' \<in> ?A \<and> ?m (?name e') = Some y \<and>
          nid x \<in> set (ids [y])"
        then obtain e' y where e': "e' \<in> set (elements ks)" "nid e' \<in> ?A"
          "?m (?name e') = Some y" "nid x \<in> set (ids [y])" by blast
        from slotDump_of_Some [OF e'(3)] have y: "y \<in> set rc"
          "attribute_or_empty ''slot'' y = ?name e'" by simp_all
        have "y = x"
        proof (rule ccontr)
          assume "y \<noteq> x"
          then have "x \<noteq> y" by simp
          from ids_disjoint [OF dr x(1) y(1) this] x_id e'(4) show False by auto
        qed
        with y(2) x(3) have same: "?name e' = ?name e" by simp
        from e'(2) obtain d where d: "d \<in> set done" "nid d = nid e'" by auto
        with done_in e'(1) have "d = e'" using element_by_id [OF dk _ e'(1)] by auto
        with d(1) e'(3) have
          "e' \<in> set (filter (\<lambda>e. ?m (?name e) \<noteq> None) done)" by simp
        then have 1: "?name e' \<in> set (map ?name (filter (\<lambda>e. ?m (?name e) \<noteq> None) done))"
          by (simp only: set_map) (rule imageI)
        from Cons.prems(2) Some have
          "?name e \<notin> set (map ?name (filter (\<lambda>e. ?m (?name e) \<noteq> None) done))"
          by auto
        with 1 same show False by simp
      qed
    qed
    have "replaceWith e x ?P = replace_id (nid e) x ?P"
      by (simp only: replaceWith_def remove_id_absent [OF absent])
    also have "\<dots> = project_on (insert (nid e) ?A) ?m ks"
    proof (rule replace_project_on [OF s_new _ dk])
      show "\<forall>n y. ?m n = Some y \<longrightarrow> nid e \<notin> set (ids [y])"
      proof (intro allI impI)
        fix n y assume "?m n = Some y"
        from slotDump_of_Some [OF this] have "y \<in> set rc" by simp
        from ids_member [OF this] s_ks disj show "nid e \<notin> set (ids [y])" by auto
      qed
      show "\<forall>e'\<in>set (elements ks). nid e' = nid e \<longrightarrow>
        tagName e' = ''slot'' \<and> ?m (?name e') = Some x"
        using uniq e_slot Some by auto
    qed
    finally show ?thesis using Some by simp
  qed
  have "forEach_slot ?m (e # todo) ?P
      = forEach_slot ?m todo (project_on (set (map nid (done @ [e]))) ?m ks)"
    unfolding forEach_slot_Cons step next_A ..
  also have "\<dots> = project_on (set (map nid ((done @ [e]) @ todo))) ?m ks"
    by (rule Cons.IH) (use Cons.prems in simp_all)
  finally show ?case by simp
qed

text \<open>
  C4, as stated, fails. The instance has one child, for slot \<open>a\<close>, and no content for
  slot \<open>b\<close>. In the first copy the placeholder \<open>b\<close> lies inside the placeholder \<open>a\<close>:
  it has no matching content, and it is not left in the tree, since it goes out with
  the placeholder around it. In the second copy two placeholders are named \<open>a\<close>: both
  have an entry in the slot map, and the child ends up in the place of the second only,
  after the rule; the place of the first is empty.
\<close>

theorem assemble_slots_moves:
  "slotDump_of one_child ''a'' = Some (Elem 10 ''p'' [(''slot'', ''a'')] [Text ''hello'']) \<and>
   slotDump_of one_child ''b'' = None \<and>
   assemble_slots nested_template one_child
     = Elem 0 ''div'' [] [Elem 10 ''p'' [(''slot'', ''a'')] [Text ''hello'']] \<and>
   assemble_slots repeated_template one_child
     = Elem 0 ''div'' [] [Elem 3 ''hr'' [] [], Elem 10 ''p'' [(''slot'', ''a'')] [Text ''hello'']]"
  by code_simp

text \<open>
  C4, amended. When the elements of the copy and of the children of the instance all
  have their own identity, and the placeholders of the copy whose name has an entry in
  the slot map have pairwise different names, the copy after the loop is the copy in
  which every placeholder whose declared name has an entry in the slot map (built from
  the direct children of the instance, each under its slot name, the empty string for a
  child without one) is replaced in place by that child, and every other node is as it
  was: a placeholder without matching content stays where it is, and nothing fails.
  What was inside a filled placeholder, further placeholders included, is gone with it.
\<close>

theorem assemble_slots_projects:
  "distinct (ids (ks @ root_children)) \<and>
   distinct (map (attribute_or_empty ''name'')
      (filter (\<lambda>e. slotDump_of root_children (attribute_or_empty ''name'' e) \<noteq> None)
         (querySelectorAll_slot (Elem i tg at ks)))) \<longrightarrow>
   assemble_slots (Elem i tg at ks) root_children
     = Elem i tg at (project (slotDump_of root_children) ks)"
proof
  let ?m = "slotDump_of root_children"
  let ?L = "filter (\<lambda>e. tagName e = ''slot'') (elements ks)"
  assume a: "distinct (ids (ks @ root_children)) \<and>
   distinct (map (attribute_or_empty ''name'')
      (filter (\<lambda>e. slotDump_of root_children (attribute_or_empty ''name'' e) \<noteq> None)
         (querySelectorAll_slot (Elem i tg at ks))))"
  then have wf: "distinct (ids (ks @ root_children))"
    and names: "distinct (map (attribute_or_empty ''name'')
      (filter (\<lambda>e. ?m (attribute_or_empty ''name'' e) \<noteq> None) ([] @ ?L)))"
    by simp_all
  have "forEach_slot ?m ?L (project_on (set (map nid [])) ?m ks)
      = project_on (set (map nid ([] @ ?L))) ?m ks"
    by (rule forEach_slot_project_on [OF wf _ names]) simp
  then have "forEach_slot ?m ?L ks = project_on (set (map nid ?L)) ?m ks"
    by (simp add: project_on_empty)
  also have "\<dots> = project ?m ks"
    by (rule project_on_all) auto
  finally show "assemble_slots (Elem i tg at ks) root_children = Elem i tg at (project ?m ks)"
    by simp
qed

theorem assemble_slots_projects_witness:
  "distinct (ids ([Elem 1 ''slot'' [] [], Text '', '', Elem 2 ''slot'' [(''name'', ''footer'')] [],
                   Elem 3 ''slot'' [(''name'', ''aside'')] [Text ''none'']] @ page_children)) \<and>
   assemble_slots page_template page_children
     = Elem 0 ''div'' []
         [Elem 10 ''p'' [] [Text ''body''], Text '', '',
          Elem 11 ''p'' [(''slot'', ''footer'')] [Text ''foot''],
          Elem 3 ''slot'' [(''name'', ''aside'')] [Text ''none'']]"
proof -
  let ?ks = "[Elem 1 ''slot'' [] [], Text '', '', Elem 2 ''slot'' [(''name'', ''footer'')] [],
              Elem 3 ''slot'' [(''name'', ''aside'')] [Text ''none'']]"
  have h1: "distinct (ids (?ks @ page_children))" by code_simp
  have h2: "distinct (map (attribute_or_empty ''name'')
      (filter (\<lambda>e. slotDump_of page_children (attribute_or_empty ''name'' e) \<noteq> None)
         (querySelectorAll_slot (Elem 0 ''div'' [] ?ks))))" by code_simp
  have p: "project (slotDump_of page_children) ?ks
     = [Elem 10 ''p'' [] [Text ''body''], Text '', '',
          Elem 11 ''p'' [(''slot'', ''footer'')] [Text ''foot''],
          Elem 3 ''slot'' [(''name'', ''aside'')] [Text ''none'']]" by code_simp
  from assemble_slots_projects [of ?ks page_children 0 "''div''" "[]", THEN mp, OF conjI [OF h1 h2]]
  have "assemble_slots page_template page_children = Elem 0 ''div'' [] (project (slotDump_of page_children) ?ks)"
    by (simp only: page_template_def)
  with p h1 show ?thesis by (simp only: simp_thms)
qed

end
